theory Spec2Isabelle
  imports Complex_Main
begin

section \<open>Location720: history processing, playback lookup and crash detection\<close>

text \<open>
  A shallow embedding of the algorithmic core of \<^verbatim>\<open>location720.js\<close>:
  \<^verbatim>\<open>GeoUtils\<close>, \<^verbatim>\<open>HistoryAPI\<close> (\<^verbatim>\<open>processHistory\<close>, \<^verbatim>\<open>_calculateStats\<close>,
  \<^verbatim>\<open>_detectTrips\<close>, \<^verbatim>\<open>_calculateZoneTime\<close>), the point lookup of
  \<^verbatim>\<open>Location720Card._updateMarkersToTime\<close> and the class \<^verbatim>\<open>CrashDetector\<close>.

  Conventions of the embedding.
  \<^item> A JavaScript number is a \<^typ>\<open>real\<close>. The geometry (haversine distance, speed) is
    read over the reals. The durations in seconds, which the source obtains by dividing a
    difference of instants by 1000 and adds up with \<^verbatim>\<open>+=\<close>, are rounded to a double after
    every operation, as in the source.
  \<^item> An instant (\<^verbatim>\<open>new Date(x)\<close>, \<^verbatim>\<open>Date.now()\<close>) is an \<^typ>\<open>int\<close>, the number of
    milliseconds since the epoch.
  \<^item> A value that may be \<^verbatim>\<open>undefined\<close> or \<^verbatim>\<open>null\<close> is an \<^typ>\<open>'a option\<close>, and the
    truthiness tests of the source (\<^verbatim>\<open>x && ...\<close>, \<^verbatim>\<open>x || d\<close>, \<^verbatim>\<open>!x\<close>) are written out:
    \<^verbatim>\<open>0\<close>, the empty string, \<^verbatim>\<open>null\<close> and \<^verbatim>\<open>undefined\<close> are falsy.
  \<^item> A plain object used as a dictionary holds its own properties, and a read
    \<^verbatim>\<open>obj[k]\<close> that finds no own property falls back to \<^verbatim>\<open>Object.prototype\<close>.
\<close>

subsection \<open>Data\<close>

text \<open>The attribute object \<^verbatim>\<open>h.a\<close> and a raw history sample \<^verbatim>\<open>h\<close> (\<^verbatim>\<open>a\<close>, \<^verbatim>\<open>lu\<close>, \<^verbatim>\<open>lc\<close>, \<^verbatim>\<open>s\<close>).\<close>

record Attrs =
  latitude :: "real option"
  longitude :: "real option"
  gps_accuracy :: "real option"
  battery_level :: "real option"

record RawSample =
  h_a :: "Attrs option"
  h_lu :: "int option"
  h_lc :: "int option"
  h_s :: string

text \<open>A point of a route, as built by \<^verbatim>\<open>processHistory\<close>.\<close>

record TrackPoint =
  lat :: real
  lng :: real
  timestamp :: int
  accuracy :: real
  battery :: "real option"
  state :: string
  zone :: "string option"
  zoneId :: "string option"
  speed :: real
  isMoving :: bool
  isDriving :: bool

record Zone =
  z_name :: string
  z_lat :: real
  z_lng :: real
  z_radius :: real

type_synonym Zones = "(string \<times> Zone) list"

record Stats =
  distance :: real
  duration :: real
  avgSpeed :: real
  maxSpeed :: real
  movingTime :: real
  stationaryTime :: real
  drivingTime :: real

text \<open>
  \<^verbatim>\<open>currentTrip\<close> while it is open, and the trip once \<^verbatim>\<open>endTime\<close>, \<^verbatim>\<open>endZone\<close>,
  \<^verbatim>\<open>distance\<close> and \<^verbatim>\<open>duration\<close> have been assigned.
\<close>

record OpenTrip =
  startTime :: int
  startZone :: "string option"
  tripPoints :: "TrackPoint list"
  tripMaxSpeed :: real

record Trip = OpenTrip +
  endTime :: int
  endZone :: "string option"
  tripDistance :: real
  tripDuration :: real

record ZoneEntry =
  zt_duration :: real
  visits :: nat
  lastVisit :: "int option"

type_synonym ZoneTime = "(string \<times> ZoneEntry) list"

record History =
  points :: "TrackPoint list"
  stats :: Stats
  trips :: "Trip list"
  zoneVisits :: ZoneTime

subsection \<open>Doubles\<close>

text \<open>
  Rounding of a real number to the nearest double, ties to even: \<open>expo x\<close> is the binary
  exponent of \<open>x\<close>, and the significand is rounded to an integer of 53 bits. The exponent
  range and the subnormal numbers are left out: the values rounded here are durations
  between a millisecond and the span of \<^verbatim>\<open>Date\<close>, and differences of instants.
\<close>

definition round_even :: "real \<Rightarrow> int" where
  "round_even y =
     (let n = \<lfloor>y\<rfloor>; r = y - of_int n
      in if r < 1 / 2 then n else if 1 / 2 < r then n + 1 else if even n then n else n + 1)"

definition expo :: "real \<Rightarrow> int" where
  "expo x = \<lfloor>log 2 \<bar>x\<bar>\<rfloor>"

definition fl :: "real \<Rightarrow> real" where
  "fl x = (if x = 0 then 0
           else of_int (round_even (x * 2 powr (52 - real_of_int (expo x))))
                  * 2 powr (real_of_int (expo x) - 52))"

text \<open>
  \<^verbatim>\<open>(new Date(b) - new Date(a)) / 1000\<close> for a difference of \<open>ms\<close> milliseconds: the
  subtraction and the division each give a double.
\<close>

definition seconds :: "int \<Rightarrow> real" where
  "seconds ms = fl (fl (real_of_int ms) / 1000)"

subsection \<open>GeoUtils\<close>

text \<open>\<^verbatim>\<open>Math.atan2(y, x)\<close> on the reals.\<close>

definition atan2 :: "real \<Rightarrow> real \<Rightarrow> real" where
  "atan2 y x =
     (if 0 < x then arctan (y / x)
      else if x < 0 \<and> 0 \<le> y then arctan (y / x) + pi
      else if x < 0 then arctan (y / x) - pi
      else if 0 < y then pi / 2
      else if y < 0 then - (pi / 2)
      else 0)"

definition toRad :: "real \<Rightarrow> real" where
  "toRad deg = deg * pi / 180"

text \<open>The body of \<^verbatim>\<open>GeoUtils.distance\<close> on the coordinates of its two arguments.\<close>

definition haversine :: "real \<Rightarrow> real \<Rightarrow> real \<Rightarrow> real \<Rightarrow> real" where
  "haversine lat1 lng1 lat2 lng2 =
     (let R = 6371000;
          dLat = toRad (lat2 - lat1);
          dLon = toRad (lng2 - lng1);
          a = (sin (dLat / 2))\<^sup>2 + cos (toRad lat1) * cos (toRad lat2) * (sin (dLon / 2))\<^sup>2
      in R * 2 * atan2 (sqrt a) (sqrt (1 - a)))"

definition geo_distance :: "TrackPoint \<Rightarrow> TrackPoint \<Rightarrow> real" where
  "geo_distance p1 p2 = haversine (lat p1) (lng p1) (lat p2) (lng p2)"

definition geo_speed :: "TrackPoint \<Rightarrow> TrackPoint \<Rightarrow> real" where
  "geo_speed p1 p2 =
     (let dist = geo_distance p1 p2;
          timeMs = timestamp p2 - timestamp p1
      in if timeMs \<le> 0 then 0 else (dist / 1000) / (real_of_int timeMs / 3600000))"

text \<open>The loop of \<^verbatim>\<open>routeDistance\<close>: the sum over \<^verbatim>\<open>i = 1 .. length - 1\<close>, in metres.\<close>

fun route_sum :: "TrackPoint list \<Rightarrow> real" where
  "route_sum [] = 0"
| "route_sum [p] = 0"
| "route_sum (p # q # ps) = geo_distance p q + route_sum (q # ps)"

definition routeDistance :: "TrackPoint list \<Rightarrow> real" where
  "routeDistance ps = route_sum ps / 1000"

definition inZone :: "TrackPoint \<Rightarrow> Zone \<Rightarrow> bool" where
  "inZone point z \<longleftrightarrow> haversine (lat point) (lng point) (z_lat z) (z_lng z) \<le> z_radius z"

text \<open>
  \<^verbatim>\<open>findZone\<close> returns the first zone of the enumeration that contains the point; the model
  returns it with its key, which \<^verbatim>\<open>processHistory\<close> looks up again for \<^verbatim>\<open>zoneId\<close>.
\<close>

fun findZone :: "TrackPoint \<Rightarrow> Zones \<Rightarrow> (string \<times> Zone) option" where
  "findZone point [] = None"
| "findZone point ((k, z) # zs) = (if inZone point z then Some (k, z) else findZone point zs)"

definition geo_isMoving :: "real \<Rightarrow> bool" where
  "geo_isMoving v \<longleftrightarrow> v > 5"

definition geo_isDriving :: "real \<Rightarrow> bool" where
  "geo_isDriving v \<longleftrightarrow> v > 25"

subsection \<open>processHistory: filter, map, sort, thinning\<close>

text \<open>
  The three \<^verbatim>\<open>filter\<close> calls, in the order of the source. The second and the third
  callback only see samples that passed the first, so their branch for a missing \<^verbatim>\<open>h.a\<close>
  is never taken; \<^verbatim>\<open>Math.abs(undefined) <= 90\<close> is false and \<^verbatim>\<open>undefined !== 0\<close> is true.
\<close>

definition has_coords :: "RawSample \<Rightarrow> bool" where
  "has_coords h =
     (case h_a h of
        None \<Rightarrow> False
      | Some att \<Rightarrow>
          (case latitude att of
             None \<Rightarrow> False
           | Some la \<Rightarrow> la \<noteq> 0 \<and> (case longitude att of None \<Rightarrow> False | Some lo \<Rightarrow> lo \<noteq> 0)))"

definition coords_in_range :: "RawSample \<Rightarrow> bool" where
  "coords_in_range h =
     (case h_a h of
        None \<Rightarrow> False
      | Some att \<Rightarrow>
          (case latitude att of
             None \<Rightarrow> False
           | Some la \<Rightarrow> \<bar>la\<bar> \<le> 90 \<and> (case longitude att of None \<Rightarrow> False | Some lo \<Rightarrow> \<bar>lo\<bar> \<le> 180)))"

definition coords_nonzero :: "RawSample \<Rightarrow> bool" where
  "coords_nonzero h =
     (case h_a h of
        None \<Rightarrow> False
      | Some att \<Rightarrow> latitude att \<noteq> Some 0 \<and> longitude att \<noteq> Some 0)"

definition filter_samples :: "RawSample list \<Rightarrow> RawSample list" where
  "filter_samples history = filter coords_nonzero (filter coords_in_range (filter has_coords history))"

text \<open>\<^verbatim>\<open>h.lu || h.lc\<close>: the instant it denotes, \<open>None\<close> when neither field gives one.\<close>

definition sample_timestamp :: "RawSample \<Rightarrow> int option" where
  "sample_timestamp h =
     (case h_lu h of
        None \<Rightarrow> h_lc h
      | Some t \<Rightarrow> if t \<noteq> 0 then Some t else h_lc h)"

text \<open>
  The object built by \<^verbatim>\<open>map\<close>. The fields \<^verbatim>\<open>zone\<close>, \<^verbatim>\<open>zoneId\<close>, \<^verbatim>\<open>speed\<close>,
  \<^verbatim>\<open>isMoving\<close> and \<^verbatim>\<open>isDriving\<close> do not exist yet in the source; they are assigned in the
  thinning loop to every point that is kept, and hold placeholders here.
\<close>

definition to_point :: "RawSample \<Rightarrow> TrackPoint option" where
  "to_point h =
     (case h_a h of
        None \<Rightarrow> None
      | Some att \<Rightarrow>
          (case (latitude att, longitude att, sample_timestamp h) of
             (Some la, Some lo, Some t) \<Rightarrow>
               Some \<lparr> lat = la, lng = lo, timestamp = t,
                      accuracy = (case gps_accuracy att of
                                    None \<Rightarrow> 999
                                  | Some g \<Rightarrow> if g \<noteq> 0 then g else 999),
                      battery = battery_level att, state = h_s h,
                      zone = None, zoneId = None, speed = 0,
                      isMoving = False, isDriving = False \<rparr>
           | _ \<Rightarrow> None))"

text \<open>The assignments to a kept point: zone, then speed and flags from \<^verbatim>\<open>lastPoint\<close>.\<close>

definition enrich :: "TrackPoint option \<Rightarrow> Zones \<Rightarrow> TrackPoint \<Rightarrow> TrackPoint" where
  "enrich lastPoint zones point =
     (let fz = findZone point zones;
          p1 = point \<lparr> zone := (case fz of None \<Rightarrow> None | Some (k, z) \<Rightarrow> Some (z_name z)),
                       zoneId := (case fz of None \<Rightarrow> None | Some (k, z) \<Rightarrow> Some k) \<rparr>
      in case lastPoint of
           Some lp \<Rightarrow>
             (let v = geo_speed lp p1
              in p1 \<lparr> speed := v, isMoving := geo_isMoving v, isDriving := geo_isDriving v \<rparr>)
         | None \<Rightarrow> p1 \<lparr> speed := 0, isMoving := False, isDriving := False \<rparr>)"

text \<open>The loop \<^verbatim>\<open>for (const point of points)\<close>; the result lists the pushes in order.\<close>

fun thin :: "TrackPoint option \<Rightarrow> Zones \<Rightarrow> TrackPoint list \<Rightarrow> TrackPoint list" where
  "thin lastPoint zones [] = []"
| "thin lastPoint zones (point # rest) =
     (if (case lastPoint of None \<Rightarrow> True | Some lp \<Rightarrow> geo_distance lp point > 15)
      then (let kept = enrich lastPoint zones point in kept # thin (Some kept) zones rest)
      else thin lastPoint zones rest)"

subsection \<open>_calculateStats\<close>

text \<open>The loop over \<^verbatim>\<open>i = 1 .. length - 1\<close>; the state is (movingTime, stationaryTime, drivingTime).\<close>

fun stats_loop :: "TrackPoint \<Rightarrow> TrackPoint list \<Rightarrow> real \<times> real \<times> real \<Rightarrow> real \<times> real \<times> real" where
  "stats_loop prev [] acc = acc"
| "stats_loop prev (p # ps) (mv, st, dr) =
     (let dt = seconds (timestamp p - timestamp prev)
      in stats_loop p ps
           (if isDriving p then (fl (mv + dt), st, fl (dr + dt))
            else if isMoving p then (fl (mv + dt), st, dr)
            else (mv, fl (st + dt), dr)))"

definition calculateStats :: "TrackPoint list \<Rightarrow> Stats" where
  "calculateStats pts =
     (case pts of
        p0 # p1 # rest \<Rightarrow>
          (let speeds = filter (\<lambda>s. s > 0 \<and> s < 200) (map speed pts);
               (mv, st, dr) = stats_loop p0 (p1 # rest) (0, 0, 0)
           in \<lparr> distance = routeDistance pts,
                duration = seconds (timestamp (last pts) - timestamp p0),
                avgSpeed = (if speeds \<noteq> [] then sum_list speeds / real (length speeds) else 0),
                maxSpeed = (if speeds \<noteq> [] then Max (set speeds) else 0),
                movingTime = mv, stationaryTime = st, drivingTime = dr \<rparr>)
      | _ \<Rightarrow> \<lparr> distance = 0, duration = 0, avgSpeed = 0, maxSpeed = 0,
               movingTime = 0, stationaryTime = 0, drivingTime = 0 \<rparr>)"

subsection \<open>_detectTrips\<close>

text \<open>\<^verbatim>\<open>x || null\<close> on a zone name: the empty string is falsy.\<close>

definition or_null :: "string option \<Rightarrow> string option" where
  "or_null z = (case z of None \<Rightarrow> None | Some n \<Rightarrow> if n = [] then None else Some n)"

definition close_trip :: "OpenTrip \<Rightarrow> TrackPoint \<Rightarrow> Trip" where
  "close_trip c point =
     OpenTrip.extend c
       \<lparr> endTime = timestamp point, endZone = zone point,
         tripDistance = routeDistance (tripPoints c),
         tripDuration = seconds (timestamp point - startTime c) \<rparr>"

text \<open>
  The loop over \<^verbatim>\<open>i\<close>: \<open>prev\<close> is \<^verbatim>\<open>points[i-1]\<close> (\<open>None\<close> at \<^verbatim>\<open>i = 0\<close>), \<open>cur\<close> is
  \<^verbatim>\<open>currentTrip\<close>, and the result lists the trips pushed from here on. When the points run out
  the loop ends and \<^verbatim>\<open>trips\<close> is returned: an open \<^verbatim>\<open>currentTrip\<close> is not pushed.
\<close>

fun detect_loop :: "TrackPoint option \<Rightarrow> OpenTrip option \<Rightarrow> TrackPoint list \<Rightarrow> Trip list" where
  "detect_loop prev cur [] = []"
| "detect_loop prev cur (point # rest) =
     (case cur of
        None \<Rightarrow>
          (if isMoving point
           then detect_loop (Some point)
                  (Some \<lparr> startTime = timestamp point,
                          startZone = (case prev of None \<Rightarrow> None | Some q \<Rightarrow> or_null (zone q)),
                          tripPoints = [point], tripMaxSpeed = speed point \<rparr>) rest
           else detect_loop (Some point) None rest)
      | Some c \<Rightarrow>
          (if isMoving point
           then detect_loop (Some point)
                  (Some (c \<lparr> tripPoints := tripPoints c @ [point],
                             tripMaxSpeed := (if speed point > tripMaxSpeed c then speed point
                                              else tripMaxSpeed c) \<rparr>)) rest
           else (let t = close_trip c point
                 in (if tripDistance t > 0.1 then [t] else []) @ detect_loop (Some point) None rest)))"

definition detectTrips :: "TrackPoint list \<Rightarrow> Trip list" where
  "detectTrips pts = detect_loop None None pts"

subsection \<open>_calculateZoneTime\<close>

text \<open>
  The table \<^verbatim>\<open>zoneTime\<close> is a plain object. The model lists, by key and in the order of
  the first write, what a read \<^verbatim>\<open>zoneTime[k]\<close> finds after the writes made so far. Every
  key that is written becomes an own property, except \<^verbatim>\<open>__proto__\<close>: the assignment
  \<^verbatim>\<open>zoneTime['__proto__'] = {...}\<close> makes the entry the prototype of the table, where
  later reads under that key find and update it, but it is no own property and
  \<^verbatim>\<open>Object.entries\<close> does not list it (\<open>own_entries\<close> below). Under a key that was
  never written the model finds nothing, and the loop then creates the entry. The source
  does the same, unless the key names a member of \<^verbatim>\<open>Object.prototype\<close> (\<^verbatim>\<open>constructor\<close>,
  \<^verbatim>\<open>toString\<close>, ...): it then finds that member, creates no entry, and its updates act on the
  member, outside the table. The model does not follow them there: it records the updates
  made under such a name as an entry of that name, so its table holds, name by name, what
  the loop adds and counts. The statement about the entries of the returned table (the sum
  of the durations) keeps these names out of the points.

  Assignment \<^verbatim>\<open>obj[k] = v\<close>: an existing key keeps its place, a new key goes last.
\<close>

fun set_entry :: "string \<Rightarrow> ZoneEntry \<Rightarrow> ZoneTime \<Rightarrow> ZoneTime" where
  "set_entry k v [] = [(k, v)]"
| "set_entry k v ((k', v') # t) = (if k = k' then (k, v) # t else (k', v') # set_entry k v t)"

definition empty_entry :: ZoneEntry where
  "empty_entry = \<lparr> zt_duration = 0, visits = 0, lastVisit = None \<rparr>"

definition init_zoneTime :: "Zones \<Rightarrow> ZoneTime" where
  "init_zoneTime zones =
     set_entry ''Away'' empty_entry
       (foldl (\<lambda>tbl z. set_entry (z_name z) empty_entry tbl) [] (map snd zones))"

text \<open>\<^verbatim>\<open>points[i].zone || 'Away'\<close>.\<close>

definition zone_name :: "TrackPoint \<Rightarrow> string" where
  "zone_name p = (case or_null (zone p) of None \<Rightarrow> ''Away'' | Some n \<Rightarrow> n)"

text \<open>One iteration of the loop, at the pair (\<^verbatim>\<open>points[i-1]\<close>, \<^verbatim>\<open>points[i]\<close>).\<close>

definition zone_step :: "string option \<Rightarrow> TrackPoint \<Rightarrow> TrackPoint \<Rightarrow> ZoneTime \<Rightarrow> ZoneTime" where
  "zone_step lastZone prev p tbl =
     (let zoneName = zone_name p;
          dt = seconds (timestamp p - timestamp prev);
          e = (case map_of tbl zoneName of None \<Rightarrow> empty_entry | Some e \<Rightarrow> e)
      in set_entry zoneName
           (e \<lparr> zt_duration := fl (zt_duration e + dt),
                lastVisit := Some (timestamp p),
                visits := (if Some zoneName \<noteq> lastZone then visits e + 1 else visits e) \<rparr>) tbl)"

fun zone_loop :: "string option \<Rightarrow> TrackPoint \<Rightarrow> TrackPoint list \<Rightarrow> ZoneTime \<Rightarrow> ZoneTime" where
  "zone_loop lastZone prev [] tbl = tbl"
| "zone_loop lastZone prev (p # ps) tbl =
     zone_loop (Some (zone_name p)) p ps (zone_step lastZone prev p tbl)"

definition calculateZoneTime :: "TrackPoint list \<Rightarrow> Zones \<Rightarrow> ZoneTime" where
  "calculateZoneTime pts zones =
     (case pts of
        [] \<Rightarrow> init_zoneTime zones
      | p0 # rest \<Rightarrow> zone_loop None p0 rest (init_zoneTime zones))"

text \<open>
  The entries of the returned table, as \<^verbatim>\<open>Object.entries\<close> and \<^verbatim>\<open>Object.values\<close>
  enumerate them (\<^verbatim>\<open>_updateZoneTimeList\<close> reads the table this way).
\<close>

definition own_entries :: "ZoneTime \<Rightarrow> ZoneTime" where
  "own_entries tbl = filter (\<lambda>(k, e). k \<noteq> ''__proto__'') tbl"

subsection \<open>processHistory\<close>

text \<open>
  The comparator of \<^verbatim>\<open>sort\<close> subtracts two dates, and \<^verbatim>\<open>Array.prototype.sort\<close> is stable:
  \<^const>\<open>sort_key\<close> on the instants. A surviving sample without a valid instant makes the
  comparator return \<^verbatim>\<open>NaN\<close>, and the order is then left to the implementation: the model
  gives no result there.
\<close>

definition processHistory :: "RawSample list \<Rightarrow> Zones \<Rightarrow> History option" where
  "processHistory history zones =
     (case those (map to_point (filter_samples history)) of
        None \<Rightarrow> None
      | Some pts \<Rightarrow>
          (let filtered = thin None zones (sort_key timestamp pts)
           in Some \<lparr> points = filtered,
                     stats = calculateStats filtered,
                     trips = detectTrips filtered,
                     zoneVisits = calculateZoneTime filtered zones \<rparr>))"

subsection \<open>Playback: the point lookup of _updateMarkersToTime\<close>

text \<open>
  The inner loop: \<open>point\<close> is the current choice, and the scan stops at the first point
  whose instant is after the target.
\<close>

fun scan_points :: "TrackPoint \<Rightarrow> int \<Rightarrow> TrackPoint list \<Rightarrow> TrackPoint" where
  "scan_points point targetTime [] = point"
| "scan_points point targetTime (p # ps) =
     (if timestamp p \<le> targetTime then scan_points p targetTime ps else point)"

text \<open>The point chosen for one route: none for an empty route (the callback returns).\<close>

definition point_at :: "TrackPoint list \<Rightarrow> int \<Rightarrow> TrackPoint option" where
  "point_at pts targetTime =
     (case pts of [] \<Rightarrow> None | p0 # rest \<Rightarrow> Some (scan_points p0 targetTime pts))"

text \<open>
  \<^verbatim>\<open>_updateMarkersToTime\<close>: every route with a point and a marker moves its marker to the
  chosen point.
\<close>

fun updateMarkersToTime ::
  "int \<Rightarrow> (string \<times> History) list \<Rightarrow> (string \<rightharpoonup> real \<times> real) \<Rightarrow> (string \<rightharpoonup> real \<times> real)" where
  "updateMarkersToTime targetTime [] markers = markers"
| "updateMarkersToTime targetTime ((name, route) # rs) markers =
     updateMarkersToTime targetTime rs
       (case point_at (points route) targetTime of
          None \<Rightarrow> markers
        | Some point \<Rightarrow>
            (case markers name of
               None \<Rightarrow> markers
             | Some m \<Rightarrow> markers(name \<mapsto> (lat point, lng point))))"

subsection \<open>CrashDetector\<close>








text \<open>
  The three dictionaries of the detector are plain objects created by \<^verbatim>\<open>{}\<close> and read
  by truthiness. A read \<^verbatim>\<open>obj[k]\<close> finds the own property \<open>k\<close>; without one it finds the
  member of \<^verbatim>\<open>Object.prototype\<close> of that name, when there is one (a function, or for
  \<^verbatim>\<open>__proto__\<close> the prototype itself: truthy, and neither an array nor an alert);
  otherwise it is \<^verbatim>\<open>undefined\<close>.
\<close>

definition proto_names :: "string list" where
  "proto_names =
     [''constructor'', ''__proto__'', ''hasOwnProperty'', ''isPrototypeOf'',
      ''propertyIsEnumerable'', ''toLocaleString'', ''toString'', ''valueOf'',
      ''__defineGetter__'', ''__defineSetter__'', ''__lookupGetter__'', ''__lookupSetter__'']"

datatype 'a slot = Own 'a | Inherited | Undefined

definition js_get :: "(string \<rightharpoonup> 'a) \<Rightarrow> string \<Rightarrow> 'a slot" where
  "js_get m k =
     (case m k of
        Some v \<Rightarrow> Own v
      | None \<Rightarrow> if k \<in> set proto_names then Inherited else Undefined)"






















section \<open>Definitions used by the statements\<close>

text \<open>
  The samples that the filter step keeps, as one predicate: both coordinates present and
  both non-zero, and both in range.
\<close>

definition retained :: "RawSample \<Rightarrow> bool" where
  "retained h =
     (case h_a h of
        None \<Rightarrow> False
      | Some att \<Rightarrow>
          (case (latitude att, longitude att) of
             (Some la, Some lo) \<Rightarrow> la \<noteq> 0 \<and> lo \<noteq> 0 \<and> \<bar>la\<bar> \<le> 90 \<and> \<bar>lo\<bar> \<le> 180
           | _ \<Rightarrow> False))"

text \<open>
  The reading of the specification: both coordinates present and in range, and the sample
  is not exactly the point (0, 0).
\<close>

definition spec_retained :: "RawSample \<Rightarrow> bool" where
  "spec_retained h =
     (case h_a h of
        None \<Rightarrow> False
      | Some att \<Rightarrow>
          (case (latitude att, longitude att) of
             (Some la, Some lo) \<Rightarrow> \<bar>la\<bar> \<le> 90 \<and> \<bar>lo\<bar> \<le> 180 \<and> \<not> (la = 0 \<and> lo = 0)
           | _ \<Rightarrow> False))"

text \<open>Example data: a raw sample and a route point with the given coordinates and instant.\<close>

definition raw_sample :: "real \<Rightarrow> real \<Rightarrow> int \<Rightarrow> RawSample" where
  "raw_sample la lo t =
     \<lparr> h_a = Some \<lparr> latitude = Some la, longitude = Some lo, gps_accuracy = Some 5,
                     battery_level = None \<rparr>,
       h_lu = Some t, h_lc = None, h_s = ''not_home'' \<rparr>"

definition track_point :: "real \<Rightarrow> real \<Rightarrow> int \<Rightarrow> string option \<Rightarrow> real \<Rightarrow> TrackPoint" where
  "track_point la lo t zn v =
     \<lparr> lat = la, lng = lo, timestamp = t, accuracy = 5, battery = None, state = ''not_home'',
       zone = zn, zoneId = zn, speed = v, isMoving = geo_isMoving v,
       isDriving = geo_isDriving v \<rparr>"

text \<open>
  The unit roundoff of doubles: rounding changes a number by at most this fraction of it.
\<close>

definition eps :: real where
  "eps = 1 / 2 ^ 53"

text \<open>The sum of the durations over a list of entries of a zone-time table.\<close>

definition total_duration :: "ZoneTime \<Rightarrow> real" where
  "total_duration tbl = sum_list (map (\<lambda>(k, e). zt_duration e) tbl)"









text \<open>
  Index ranges of a point sequence. \<open>slice xs s e\<close> is the part from index \<open>s\<close> up to,
  not including, index \<open>e\<close>. A moving run is a maximal range of consecutive points with
  \<^verbatim>\<open>isMoving = true\<close>; it is closed when a point follows it (which is then not moving).
\<close>

definition slice :: "'a list \<Rightarrow> nat \<Rightarrow> nat \<Rightarrow> 'a list" where
  "slice xs s e = take (e - s) (drop s xs)"

definition moving_run :: "TrackPoint list \<Rightarrow> nat \<Rightarrow> nat \<Rightarrow> bool" where
  "moving_run pts s e \<longleftrightarrow>
     s < e \<and> e \<le> length pts \<and> (\<forall>i\<in>{s..<e}. isMoving (pts ! i)) \<and>
     (s = 0 \<or> \<not> isMoving (pts ! (s - 1))) \<and>
     (e = length pts \<or> \<not> isMoving (pts ! e))"

definition closed_run :: "TrackPoint list \<Rightarrow> nat \<Rightarrow> nat \<Rightarrow> bool" where
  "closed_run pts s e \<longleftrightarrow> moving_run pts s e \<and> e < length pts"

text \<open>One range lies before another: it ends before the other starts.\<close>

definition range_before :: "nat \<times> nat \<Rightarrow> nat \<times> nat \<Rightarrow> bool" where
  "range_before r r' \<longleftrightarrow> snd r < fst r'"

text \<open>
  The invariant of the loop of \<^verbatim>\<open>_detectTrips\<close> before index \<open>i\<close>: \<^verbatim>\<open>currentTrip\<close> is open
  exactly when point \<open>i - 1\<close> is moving, and then holds the points of the run that ends
  there. \<open>big_runs pts i\<close> are the closed runs that end at \<open>i\<close> or later and are longer than
  0.1 km.
\<close>

definition open_inv :: "TrackPoint list \<Rightarrow> nat \<Rightarrow> OpenTrip option \<Rightarrow> bool" where
  "open_inv pts i cur =
     (case cur of
        None \<Rightarrow> i = 0 \<or> \<not> isMoving (pts ! (i - 1))
      | Some c \<Rightarrow>
          (\<exists>s. s < i \<and> tripPoints c = slice pts s i \<and> (\<forall>j\<in>{s..<i}. isMoving (pts ! j)) \<and>
               (s = 0 \<or> \<not> isMoving (pts ! (s - 1)))))"

definition big_runs :: "TrackPoint list \<Rightarrow> nat \<Rightarrow> (nat \<times> nat) set" where
  "big_runs pts i = {(s, e). closed_run pts s e \<and> i \<le> e \<and> routeDistance (slice pts s e) > 0.1}"

text \<open>
  Invariants of the loop of \<^verbatim>\<open>_calculateZoneTime\<close>: no duration of the table is below 0;
  the duration found under a name (0 when there is no entry); and the entry under
  \<^verbatim>\<open>__proto__\<close>, if any, is still at 0, as long as no point is in a zone of that name.
\<close>

definition nonneg_table :: "ZoneTime \<Rightarrow> bool" where
  "nonneg_table tbl \<longleftrightarrow> (\<forall>x\<in>set tbl. 0 \<le> zt_duration (snd x))"

definition slot_duration :: "ZoneTime \<Rightarrow> string \<Rightarrow> real" where
  "slot_duration tbl k = (case map_of tbl k of None \<Rightarrow> 0 | Some e \<Rightarrow> zt_duration e)"

definition proto_idle :: "ZoneTime \<Rightarrow> bool" where
  "proto_idle tbl \<longleftrightarrow> (\<forall>x\<in>set tbl. fst x = ''__proto__'' \<longrightarrow> zt_duration (snd x) = 0)"

section \<open>Rounding to a double\<close>

lemma round_even_floor: "\<lfloor>y\<rfloor> \<le> round_even y" and round_even_ceil: "round_even y \<le> \<lfloor>y\<rfloor> + 1"
  by (simp_all add: round_even_def Let_def)

lemma round_even_error: "\<bar>of_int (round_even y) - y\<bar> \<le> 1 / 2"
  unfolding round_even_def Let_def by (auto simp: abs_if) linarith+

lemma round_even_int: "round_even (of_int n) = n"
  by (simp add: round_even_def)

lemma round_even_mono: "a \<le> b \<Longrightarrow> round_even a \<le> round_even b"
proof -
  assume ab: "a \<le> b"
  then have f: "\<lfloor>a\<rfloor> \<le> \<lfloor>b\<rfloor>" by (rule floor_mono)
  show ?thesis
  proof (cases "\<lfloor>a\<rfloor> = \<lfloor>b\<rfloor>")
    case True
    with ab show ?thesis by (auto simp: round_even_def Let_def)
  next
    case False
    with f have "\<lfloor>a\<rfloor> + 1 \<le> \<lfloor>b\<rfloor>" by simp
    with round_even_ceil [of a] round_even_floor [of b] show ?thesis by linarith
  qed
qed

lemma expo_bounds:
  assumes "x \<noteq> 0"
  shows "2 powr real_of_int (expo x) \<le> \<bar>x\<bar>" and "\<bar>x\<bar> < 2 powr (real_of_int (expo x) + 1)"
proof -
  from assms have pos: "0 < \<bar>x\<bar>" by simp
  have "real_of_int (expo x) \<le> log 2 \<bar>x\<bar>" by (simp add: expo_def)
  then show "2 powr real_of_int (expo x) \<le> \<bar>x\<bar>"
    using pos by (simp add: le_log_iff)
  have "log 2 \<bar>x\<bar> < real_of_int (expo x + 1)" by (simp add: expo_def)
  then show "\<bar>x\<bar> < 2 powr (real_of_int (expo x) + 1)"
    using pos by (simp add: log_less_iff)
qed

lemma expo_unique:
  assumes "2 powr (real_of_int k) \<le> \<bar>x\<bar>" and "\<bar>x\<bar> < 2 powr (real_of_int k + 1)"
  shows "expo x = k"
proof -
  have pos: "0 < \<bar>x\<bar>" using assms(1) by (smt (verit) powr_gt_zero)
  have "real_of_int k \<le> log 2 \<bar>x\<bar>" using assms(1) pos by (simp add: le_log_iff)
  moreover have "log 2 \<bar>x\<bar> < real_of_int k + 1" using assms(2) pos by (simp add: log_less_iff)
  ultimately show ?thesis unfolding expo_def by (intro floor_unique) auto
qed


lemma fl_zero: "fl 0 = 0"
  by (simp add: fl_def)

lemma fl_error: "\<bar>fl x - x\<bar> \<le> \<bar>x\<bar> / 2 ^ 53"
proof (cases "x = 0")
  case True
  then show ?thesis by (simp add: fl_def)
next
  case False
  let ?e = "real_of_int (expo x)"
  let ?s = "2 powr (52 - ?e)" and ?t = "2 powr (?e - 52)"
  have st: "?s * ?t = 1" by (simp flip: powr_add)
  have tpos: "0 < ?t" by simp
  have "fl x - x = (of_int (round_even (x * ?s)) - x * ?s) * ?t"
    using False st by (simp add: fl_def algebra_simps)
  then have "\<bar>fl x - x\<bar> = \<bar>of_int (round_even (x * ?s)) - x * ?s\<bar> * ?t"
    by (simp add: abs_mult)
  also have "\<dots> \<le> 1 / 2 * ?t"
    using round_even_error [of "x * ?s"] tpos by (intro mult_right_mono) simp_all
  also have "\<dots> = 2 powr ?e / 2 ^ 53"
  proof -
    have "?t = 2 powr ?e * 2 powr (- 52)" by (simp flip: powr_add)
    also have "2 powr (- 52 :: real) = 1 / 2 ^ 52" by (simp add: powr_minus_divide)
    finally show ?thesis by simp
  qed
  also have "\<dots> \<le> \<bar>x\<bar> / 2 ^ 53"
    using expo_bounds(1) [OF False] by (simp add: divide_right_mono)
  finally show ?thesis .
qed

lemma fl_nonneg: "0 \<le> x \<Longrightarrow> 0 \<le> fl x"
proof (cases "x = 0")
  case True
  then show ?thesis by (simp add: fl_def)
next
  case False
  assume "0 \<le> x"
  then have "0 \<le> x * 2 powr (52 - real_of_int (expo x))" by simp
  then have "0 \<le> \<lfloor>x * 2 powr (52 - real_of_int (expo x))\<rfloor>" by simp
  with round_even_floor [of "x * 2 powr (52 - real_of_int (expo x))"]
  have "0 \<le> round_even (x * 2 powr (52 - real_of_int (expo x)))" by linarith
  with False show ?thesis by (simp add: fl_def)
qed

lemma scaled_range:
  assumes "0 < x"
  shows "2 ^ 52 \<le> x * 2 powr (52 - real_of_int (expo x))" and "x * 2 powr (52 - real_of_int (expo x)) < 2 ^ 53"
proof -
  from assms have nz: "x \<noteq> 0" and ax: "\<bar>x\<bar> = x" by simp_all
  have p52: "2 powr (52 :: real) = 2 ^ 52" and p53: "2 powr (53 :: real) = 2 ^ 53"
    by simp_all
  have "2 powr real_of_int (expo x) * 2 powr (52 - real_of_int (expo x)) \<le> x * 2 powr (52 - real_of_int (expo x))"
    using expo_bounds(1) [OF nz] ax by (intro mult_right_mono) simp_all
  then show "2 ^ 52 \<le> x * 2 powr (52 - real_of_int (expo x))"
    by (simp flip: powr_add add: p52)
  have "x * 2 powr (52 - real_of_int (expo x)) < 2 powr (real_of_int (expo x) + 1) * 2 powr (52 - real_of_int (expo x))"
    using expo_bounds(2) [OF nz] ax by (intro mult_strict_right_mono) simp_all
  then show "x * 2 powr (52 - real_of_int (expo x)) < 2 ^ 53"
    by (simp flip: powr_add add: p53)
qed

lemma round_even_range:
  assumes "2 ^ 52 \<le> y" and "y < 2 ^ 53"
  shows "2 ^ 52 \<le> round_even y" and "round_even y \<le> 2 ^ 53"
proof -
  have "(2 ^ 52 :: int) \<le> \<lfloor>y\<rfloor>" using assms(1) by (simp add: le_floor_iff)
  with round_even_floor [of y] show "2 ^ 52 \<le> round_even y" by linarith
  have "\<lfloor>y\<rfloor> < (2 ^ 53 :: int)" using assms(2) by (simp add: floor_less_iff)
  with round_even_ceil [of y] show "round_even y \<le> 2 ^ 53" by linarith
qed

lemma fl_binade:
  assumes "0 < x"
  shows "2 powr real_of_int (expo x) \<le> fl x" and "fl x \<le> 2 powr (real_of_int (expo x) + 1)"
proof -
  let ?y = "x * 2 powr (52 - real_of_int (expo x))" and ?t = "2 powr (real_of_int (expo x) - 52)"
  note r = round_even_range [OF scaled_range [OF assms]]
  have fx: "fl x = of_int (round_even ?y) * ?t" using assms by (simp add: fl_def)
  have tpos: "0 \<le> ?t" by simp
  have lo: "(2 ^ 52 :: real) \<le> of_int (round_even ?y)"
  proof -
    have "(of_int (2 ^ 52) :: real) \<le> of_int (round_even ?y)"
      using r(1) by (simp only: of_int_le_iff)
    then show ?thesis by simp
  qed
  have hi: "of_int (round_even ?y) \<le> (2 ^ 53 :: real)"
  proof -
    have "(of_int (round_even ?y) :: real) \<le> of_int (2 ^ 53)"
      using r(2) by (simp only: of_int_le_iff)
    then show ?thesis by simp
  qed
  have e52: "2 ^ 52 * ?t = 2 powr real_of_int (expo x)"
  proof -
    have a: "2 powr (52 :: real) * ?t = 2 powr (52 + (real_of_int (expo x) - 52))"
      by (rule powr_add [symmetric])
    have b: "2 powr (52 :: real) = 2 ^ 52" by simp
    from a [unfolded b] show ?thesis by simp
  qed
  have e53: "2 ^ 53 * ?t = 2 powr (real_of_int (expo x) + 1)"
  proof -
    have a: "2 powr (53 :: real) * ?t = 2 powr (53 + (real_of_int (expo x) - 52))"
      by (rule powr_add [symmetric])
    have b: "2 powr (53 :: real) = 2 ^ 53" by simp
    from a [unfolded b] show ?thesis by (simp add: add.commute)
  qed
  have "2 powr real_of_int (expo x) = 2 ^ 52 * ?t" by (simp only: e52)
  also have "\<dots> \<le> of_int (round_even ?y) * ?t" by (rule mult_right_mono [OF lo tpos])
  also have "\<dots> = fl x" by (simp only: fx)
  finally show "2 powr real_of_int (expo x) \<le> fl x" .
  have "fl x = of_int (round_even ?y) * ?t" by (simp only: fx)
  also have "\<dots> \<le> 2 ^ 53 * ?t" by (rule mult_right_mono [OF hi tpos])
  also have "\<dots> = 2 powr (real_of_int (expo x) + 1)" by (simp only: e53)
  finally show "fl x \<le> 2 powr (real_of_int (expo x) + 1)" .
qed

lemma expo_mono: "0 < x \<Longrightarrow> x \<le> y \<Longrightarrow> expo x \<le> expo y"
  unfolding expo_def by (intro floor_mono) (simp add: log_le_cancel_iff)

lemma fl_mono:
  assumes "0 \<le> x" and "x \<le> y"
  shows "fl x \<le> fl y"
proof (cases "x = 0")
  case True
  with assms fl_nonneg [of y] show ?thesis by (simp add: fl_zero)
next
  case False
  with assms have px: "0 < x" and py: "0 < y" by simp_all
  have le: "expo x \<le> expo y" using px assms(2) by (rule expo_mono)
  show ?thesis
  proof (cases "expo x = expo y")
    case True
    have "x * 2 powr (52 - real_of_int (expo y)) \<le> y * 2 powr (52 - real_of_int (expo y))"
      using assms(2) by (intro mult_right_mono) simp_all
    then have "round_even (x * 2 powr (52 - real_of_int (expo y))) \<le> round_even (y * 2 powr (52 - real_of_int (expo y)))"
      by (rule round_even_mono)
    then have "of_int (round_even (x * 2 powr (52 - real_of_int (expo y)))) * 2 powr (real_of_int (expo y) - 52)
                 \<le> of_int (round_even (y * 2 powr (52 - real_of_int (expo y)))) * 2 powr (real_of_int (expo y) - 52)"
      by (intro mult_right_mono) simp_all
    with px py True show ?thesis by (simp add: fl_def)
  next
    case False
    with le have "expo x + 1 \<le> expo y" by simp
    then have "2 powr (real_of_int (expo x) + 1) \<le> 2 powr real_of_int (expo y)"
      by (simp add: powr_mono)
    with fl_binade(2) [OF px] fl_binade(1) [OF py] show ?thesis by linarith
  qed
qed


lemma fl_scaled_int:
  assumes "2 ^ 52 \<le> n" and "n < 2 ^ 53"
  shows "fl (of_int n * 2 powr real_of_int k) = of_int n * 2 powr real_of_int k"
proof -
  let ?x = "of_int n * 2 powr real_of_int k"
  have lo: "(2 ^ 52 :: real) \<le> of_int n"
  proof -
    have "(of_int (2 ^ 52) :: real) \<le> of_int n" using assms(1) by (simp only: of_int_le_iff)
    then show ?thesis by simp
  qed
  have hi: "of_int n < (2 ^ 53 :: real)"
  proof -
    have "(of_int n :: real) < of_int (2 ^ 53)" using assms(2) by (simp only: of_int_less_iff)
    then show ?thesis by simp
  qed
  from lo have npos: "0 < (of_int n :: real)" by simp
  then have xpos: "0 < ?x" by simp
  have p52: "2 powr real_of_int (k + 52) = 2 ^ 52 * 2 powr real_of_int k"
  proof -
    have "2 powr (52 + real_of_int k) = 2 powr (52 :: real) * 2 powr real_of_int k"
      by (rule powr_add)
    then show ?thesis by (simp add: add.commute)
  qed
  have p53: "2 powr (real_of_int (k + 52) + 1) = 2 ^ 53 * 2 powr real_of_int k"
  proof -
    have "2 powr (53 + real_of_int k) = 2 powr (53 :: real) * 2 powr real_of_int k"
      by (rule powr_add)
    then show ?thesis by (simp add: add.commute)
  qed
  have "2 powr real_of_int (k + 52) \<le> \<bar>?x\<bar>"
    unfolding p52 using lo xpos by (simp add: mult_right_mono)
  moreover have "\<bar>?x\<bar> < 2 powr (real_of_int (k + 52) + 1)"
    unfolding p53 using hi xpos by (simp add: mult_strict_right_mono)
  ultimately have e: "expo ?x = k + 52" by (rule expo_unique)
  have "?x * 2 powr (52 - real_of_int (expo ?x)) = of_int n * (2 powr real_of_int k * 2 powr (- real_of_int k))"
    by (simp add: e)
  also have "\<dots> = of_int n" by (simp flip: powr_add)
  finally have y: "?x * 2 powr (52 - real_of_int (expo ?x)) = of_int n" .
  have nz: "?x \<noteq> 0" using xpos by (rule less_imp_neq [symmetric])
  have "fl ?x = of_int (round_even (?x * 2 powr (52 - real_of_int (expo ?x))))
                  * 2 powr (real_of_int (expo ?x) - 52)"
    by (subst fl_def) (simp only: nz if_False)
  also have "\<dots> = of_int n * 2 powr (real_of_int (expo ?x) - 52)"
    unfolding y round_even_int ..
  also have "\<dots> = ?x" by (simp add: e)
  finally show ?thesis .
qed

lemma fl_idem:
  assumes "0 \<le> x"
  shows "fl (fl x) = fl x"
proof (cases "x = 0")
  case True
  then show ?thesis by (simp add: fl_zero)
next
  case False
  with assms have px: "0 < x" by simp
  let ?n = "round_even (x * 2 powr (52 - real_of_int (expo x)))"
  note r = round_even_range [OF scaled_range [OF px]]
  have fx: "fl x = of_int ?n * 2 powr real_of_int (expo x - 52)"
    using px by (simp add: fl_def)
  show ?thesis
  proof (cases "?n < 2 ^ 53")
    case True
    from fl_scaled_int [OF r(1) True, of "expo x - 52"] show ?thesis
      unfolding fx .
  next
    case False
    with r(2) have n: "?n = 2 ^ 53" by simp
    have "fl x = 2 ^ 53 * 2 powr real_of_int (expo x - 52)"
      unfolding fx n by simp
    also have "\<dots> = of_int (2 ^ 52) * 2 powr real_of_int (expo x - 51)"
    proof -
      have "2 powr (1 + real_of_int (expo x - 52)) = 2 powr (1 :: real) * 2 powr real_of_int (expo x - 52)"
        by (rule powr_add)
      then have "2 powr real_of_int (expo x - 51) = 2 * 2 powr real_of_int (expo x - 52)"
        by simp
      then show ?thesis by simp
    qed
    finally have eq: "fl x = of_int (2 ^ 52) * 2 powr real_of_int (expo x - 51)" .
    have "(2 ^ 52 :: int) \<le> 2 ^ 52" "(2 ^ 52 :: int) < 2 ^ 53" by simp_all
    from fl_scaled_int [OF this] show ?thesis unfolding eq .
  qed
qed

lemma fl_eval:
  assumes "2 ^ 52 \<le> \<bar>x\<bar> * 2 ^ j" and "\<bar>x\<bar> * 2 ^ j < 2 ^ 53"
  shows "fl x = of_int (round_even (x * 2 ^ j)) / 2 ^ j"
proof -
  have pj: "2 powr real j = (2 ^ j :: real)" by (simp add: powr_realpow)
  from assms(1) have nz: "x \<noteq> 0" by auto
  have "2 powr real_of_int (52 - int j) \<le> \<bar>x\<bar>"
  proof -
    have "2 powr real_of_int (52 - int j) = 2 ^ 52 / 2 ^ j"
      by (simp add: powr_diff pj [symmetric])
    also have "\<dots> \<le> \<bar>x\<bar>" using assms(1) by (simp add: divide_le_eq)
    finally show ?thesis .
  qed
  moreover have "\<bar>x\<bar> < 2 powr (real_of_int (52 - int j) + 1)"
  proof -
    have "2 powr (real_of_int (52 - int j) + 1) = 2 ^ 53 / 2 ^ j"
    proof -
      have "real_of_int (52 - int j) + 1 = 53 - real j" by simp
      then show ?thesis by (simp add: powr_diff pj [symmetric])
    qed
    moreover have "\<bar>x\<bar> < 2 ^ 53 / 2 ^ j" using assms(2) by (simp add: less_divide_eq)
    ultimately show ?thesis by simp
  qed
  ultimately have e: "expo x = 52 - int j" by (rule expo_unique)
  have a: "2 powr (52 - real_of_int (expo x)) = 2 ^ j" by (simp add: e pj)
  have b: "2 powr (real_of_int (expo x) - 52) = 1 / 2 ^ j"
    by (simp add: e powr_minus_divide pj)
  show ?thesis using nz by (simp add: fl_def a b)
qed

lemma fl_tenth: "fl (1 / 10) = 7205759403792794 / 2 ^ 56"
  by (subst fl_eval [where j = 56]) (simp_all add: round_even_def Let_def)


lemma eps_range: "0 < eps" "eps < 1"
  by (simp_all add: eps_def)

lemma fl_rel:
  assumes "0 \<le> x"
  shows "(1 - eps) * x \<le> fl x" and "fl x \<le> (1 + eps) * x"
proof -
  from fl_error [of x] assms have "\<bar>fl x - x\<bar> \<le> eps * x"
    by (simp add: eps_def)
  then show "(1 - eps) * x \<le> fl x" and "fl x \<le> (1 + eps) * x"
    by (simp_all add: algebra_simps abs_le_iff)
qed

lemma seconds_rel:
  assumes "0 \<le> ms"
  shows "0 \<le> seconds ms"
    and "(1 - eps)\<^sup>2 * (real_of_int ms / 1000) \<le> seconds ms"
    and "seconds ms \<le> (1 + eps)\<^sup>2 * (real_of_int ms / 1000)"
proof -
  let ?x = "real_of_int ms"
  from assms have x: "0 \<le> ?x" by simp
  have f: "0 \<le> fl ?x" using x by (rule fl_nonneg)
  then have q: "0 \<le> fl ?x / 1000" by simp
  show "0 \<le> seconds ms" unfolding seconds_def using q by (rule fl_nonneg)
  have a: "0 \<le> 1 - eps" using eps_range by simp
  have "(1 - eps)\<^sup>2 * (?x / 1000) = (1 - eps) * ((1 - eps) * ?x / 1000)"
    by (simp add: power2_eq_square)
  also have "\<dots> \<le> (1 - eps) * (fl ?x / 1000)"
    using fl_rel(1) [OF x] a by (intro mult_left_mono) simp_all
  also have "\<dots> \<le> seconds ms"
    unfolding seconds_def using q by (rule fl_rel(1))
  finally show "(1 - eps)\<^sup>2 * (?x / 1000) \<le> seconds ms" .
  have b: "0 \<le> 1 + eps" using eps_range by simp
  have "seconds ms \<le> (1 + eps) * (fl ?x / 1000)"
    unfolding seconds_def using q by (rule fl_rel(2))
  also have "\<dots> \<le> (1 + eps) * ((1 + eps) * ?x / 1000)"
    using fl_rel(2) [OF x] b by (intro mult_left_mono) simp_all
  also have "\<dots> = (1 + eps)\<^sup>2 * (?x / 1000)"
    by (simp add: power2_eq_square)
  finally show "seconds ms \<le> (1 + eps)\<^sup>2 * (?x / 1000)" .
qed

lemma acc_step:
  assumes c: "0 \<le> c" "c \<le> S"
    and S: "(1 - eps) ^ j * T \<le> S" "S \<le> (1 + eps) ^ j * T"
    and T: "0 \<le> T" and d: "0 \<le> d"
    and dh: "(1 - eps)\<^sup>2 * d \<le> dh" "dh \<le> (1 + eps)\<^sup>2 * d"
    and j: "2 \<le> j"
  shows "(1 - eps) ^ Suc j * (T + d) \<le> S - c + fl (c + dh)"
    and "S - c + fl (c + dh) \<le> (1 + eps) ^ Suc j * (T + d)"
proof -
  let ?a = "1 - eps" and ?b = "1 + eps"
  have a: "0 \<le> ?a" "?a \<le> 1" and b: "1 \<le> ?b" "0 \<le> ?b"
    using eps_range by simp_all
  have dh0: "0 \<le> dh"
  proof -
    have "0 \<le> ?a\<^sup>2 * d" using d by simp
    with dh(1) show ?thesis by simp
  qed
  then have arg: "0 \<le> c + dh" using c(1) by simp
  have a3: "?a ^ Suc j \<le> ?a ^ 3"
    using j a by (intro power_decreasing) simp_all
  have b3: "?b ^ 3 \<le> ?b ^ Suc j"
    using j b by (intro power_increasing) simp_all
  have "?a ^ Suc j * (T + d) = ?a * (?a ^ j * T) + ?a ^ Suc j * d"
    by (simp add: algebra_simps)
  also have "\<dots> \<le> ?a * S + ?a ^ 3 * d"
    using S(1) a3 a(1) d by (intro add_mono mult_left_mono mult_right_mono) simp_all
  also have "\<dots> = ?a * S + ?a * (?a\<^sup>2 * d)"
    by (simp add: power3_eq_cube power2_eq_square)
  also have "\<dots> \<le> ?a * S + ?a * dh"
    using dh(1) a(1) by (intro add_mono mult_left_mono) simp_all
  also have "\<dots> = S - eps * S + ?a * dh"
    by (simp add: algebra_simps)
  also have "\<dots> \<le> S - eps * c + ?a * dh"
    using c(2) eps_range(1) by (simp add: mult_left_mono)
  also have "\<dots> = S - c + ?a * (c + dh)"
    by (simp add: algebra_simps)
  also have "\<dots> \<le> S - c + fl (c + dh)"
    using fl_rel(1) [OF arg] by simp
  finally show "?a ^ Suc j * (T + d) \<le> S - c + fl (c + dh)" .
  have "S - c + fl (c + dh) \<le> S - c + ?b * (c + dh)"
    using fl_rel(2) [OF arg] by simp
  also have "\<dots> = S + eps * c + ?b * dh"
    by (simp add: algebra_simps)
  also have "\<dots> \<le> S + eps * S + ?b * dh"
    using c(2) eps_range(1) by (simp add: mult_left_mono)
  also have "\<dots> = ?b * S + ?b * dh"
    by (simp add: algebra_simps)
  also have "\<dots> \<le> ?b * (?b ^ j * T) + ?b * (?b\<^sup>2 * d)"
    using S(2) dh(2) b(2) by (intro add_mono mult_left_mono) simp_all
  also have "\<dots> = ?b ^ Suc j * T + ?b ^ 3 * d"
    by (simp add: power3_eq_cube power2_eq_square)
  also have "\<dots> \<le> ?b ^ Suc j * T + ?b ^ Suc j * d"
    using b3 d by (intro add_mono order_refl mult_right_mono) simp_all
  also have "\<dots> = ?b ^ Suc j * (T + d)"
    by (simp add: algebra_simps)
  finally show "S - c + fl (c + dh) \<le> ?b ^ Suc j * (T + d)" .
qed


text \<open>
  The durations of the examples below: 100 ms, 200 ms and 300 ms in seconds, as doubles,
  and the double nearest to the sum of the first two, which is not the third.
\<close>

lemma ms_split:
  "real_of_int (b - a) / 1000 + real_of_int (c - b) / 1000 = real_of_int (c - a) / 1000"
  by (simp add: field_simps)

lemma seconds_100: "seconds 100 = 7205759403792794 / 2 ^ 56"
proof -
  have "fl 100 = 100"
    by (subst fl_eval [where j = 46]) (simp_all add: round_even_def Let_def)
  moreover have "fl (1 / 10) = 7205759403792794 / 2 ^ 56"
    by (subst fl_eval [where j = 56]) (simp_all add: round_even_def Let_def)
  ultimately show ?thesis by (simp add: seconds_def)
qed

lemma seconds_200: "seconds 200 = 7205759403792794 / 2 ^ 55"
proof -
  have "fl 200 = 200"
    by (subst fl_eval [where j = 45]) (simp_all add: round_even_def Let_def)
  moreover have "fl (1 / 5) = 7205759403792794 / 2 ^ 55"
    by (subst fl_eval [where j = 55]) (simp_all add: round_even_def Let_def)
  ultimately show ?thesis by (simp add: seconds_def)
qed

lemma seconds_300: "seconds 300 = 5404319552844595 / 2 ^ 54"
proof -
  have "fl 300 = 300"
    by (subst fl_eval [where j = 44]) (simp_all add: round_even_def Let_def)
  moreover have "fl (3 / 10) = 5404319552844595 / 2 ^ 54"
    by (subst fl_eval [where j = 54]) (simp_all add: round_even_def Let_def)
  ultimately show ?thesis by (simp add: seconds_def)
qed

lemma fl_seconds: "0 \<le> ms \<Longrightarrow> fl (seconds ms) = seconds ms"
  unfolding seconds_def by (intro fl_idem) (simp add: fl_nonneg)

lemma sum_100_200: "fl (seconds 100 + seconds 200) = 5404319552844596 / 2 ^ 54"
  unfolding seconds_100 seconds_200
  by (subst fl_eval [where j = 54]) (simp_all add: round_even_def Let_def)

section \<open>The filter step\<close>

text \<open>
  C3 (as amended). The filter step retains exactly the raw samples that have both
  coordinates present and non-zero, with \<open>|lat| \<le> 90\<close> and \<open>|lng| \<le> 180\<close>, in their
  order: a sample with a zero latitude or a zero longitude is dropped, also when the other
  coordinate is not zero.
\<close>

theorem filter_samples_retained: "filter_samples history = filter retained history"
  unfolding filter_samples_def
  by (induction history)
     (auto simp: retained_def has_coords_def coords_in_range_def coords_nonzero_def
           split: option.splits)

text \<open>
  C3 as stated fails: the sample at latitude 0 and longitude 10 is in range and is not the
  point (0, 0), and the filter step drops it.
\<close>

theorem filter_samples_drops_zero_latitude:
  "spec_retained (raw_sample 0 10 1000) \<and> filter_samples [raw_sample 0 10 1000] = []"
  by (simp add: spec_retained_def raw_sample_def filter_samples_def has_coords_def)

section \<open>Playback lookup\<close>

lemma scan_points_last:
  "scan_points cur t ps = last (cur # takeWhile (\<lambda>q. timestamp q \<le> t) ps)"
  by (induction ps arbitrary: cur) auto

lemma takeWhile_sorted_filter:
  "sorted (map timestamp ps) \<Longrightarrow>
     takeWhile (\<lambda>q. timestamp q \<le> t) ps = filter (\<lambda>q. timestamp q \<le> (t::int)) ps"
proof (induction ps)
  case Nil
  show ?case by simp
next
  case (Cons p ps)
  from Cons.prems have le: "\<forall>x\<in>set ps. timestamp p \<le> timestamp x"
    and "sorted (map timestamp ps)"
    by simp_all
  with Cons.IH
  have IH: "takeWhile (\<lambda>q. timestamp q \<le> t) ps = filter (\<lambda>q. timestamp q \<le> t) ps"
    by simp
  show ?case
  proof (cases "timestamp p \<le> t")
    case True
    with IH show ?thesis by simp
  next
    case False
    with le have "filter (\<lambda>q. timestamp q \<le> t) ps = []"
      by (fastforce simp: filter_empty_conv)
    with False show ?thesis by simp
  qed
qed

lemma sorted_last_max:
  "sorted (map timestamp ps) \<Longrightarrow> q \<in> set ps \<Longrightarrow> timestamp q \<le> timestamp (last ps)"
  by (induction ps) auto

text \<open>
  C9. For a non-empty route whose points are in time order, the lookup selects a point of
  the route; when some point is at or before the target, the selected point is at or before
  the target and no point at or before the target is later than it; when the target is
  before every point, it is the first point; when the target is at or after the last point,
  it is the last point.
\<close>

theorem point_at_latest:
  assumes "pts \<noteq> []" and "sorted (map timestamp pts)"
  shows "\<exists>p. point_at pts target = Some p \<and> p \<in> set pts \<and>
           (if \<exists>q\<in>set pts. timestamp q \<le> target
            then timestamp p \<le> target \<and>
                 (\<forall>q\<in>set pts. timestamp q \<le> target \<longrightarrow> timestamp q \<le> timestamp p)
            else p = hd pts) \<and>
           (target < timestamp (hd pts) \<longrightarrow> p = hd pts) \<and>
           (timestamp (last pts) \<le> target \<longrightarrow> p = last pts)"
proof -
  let ?P = "\<lambda>q. timestamp q \<le> target"
  obtain p0 rest where pts: "pts = p0 # rest"
    using assms(1) by (cases pts) auto
  define p where "p = last (p0 # filter ?P pts)"
  have sel: "point_at pts target = Some p"
  proof -
    have "point_at pts target = Some (scan_points p0 target pts)"
      by (simp add: point_at_def pts)
    then show ?thesis
      unfolding scan_points_last p_def takeWhile_sorted_filter [OF assms(2)] .
  qed
  have srt: "sorted (map timestamp (filter ?P pts))"
    using assms(2) by (simp add: sorted_filter)
  have mem: "p \<in> set pts"
  proof (cases "filter ?P pts = []")
    case True
    then show ?thesis by (simp add: p_def pts)
  next
    case False
    then have "p = last (filter ?P pts)" by (simp add: p_def)
    then have "p \<in> set (filter ?P pts)" using False last_in_set by metis
    then show ?thesis by simp
  qed
  have some: "timestamp p \<le> target \<and>
                (\<forall>q\<in>set pts. timestamp q \<le> target \<longrightarrow> timestamp q \<le> timestamp p)"
    if ex: "\<exists>q\<in>set pts. timestamp q \<le> target"
  proof -
    from ex have ne: "filter ?P pts \<noteq> []" by (simp add: filter_empty_conv)
    then have pl: "p = last (filter ?P pts)" by (simp add: p_def)
    then have "p \<in> set (filter ?P pts)" using ne last_in_set by metis
    then have a: "timestamp p \<le> target" by simp
    have b: "timestamp q \<le> timestamp p" if "q \<in> set pts" "timestamp q \<le> target" for q
    proof -
      from that have "q \<in> set (filter ?P pts)" by simp
      then show ?thesis using sorted_last_max [OF srt] pl by simp
    qed
    from a b show ?thesis by blast
  qed
  have none: "p = hd pts" if "\<not> (\<exists>q\<in>set pts. timestamp q \<le> target)"
  proof -
    from that have "filter ?P pts = []" by (simp add: filter_empty_conv)
    then show ?thesis by (simp add: p_def pts)
  qed
  have before: "p = hd pts" if "target < timestamp (hd pts)"
  proof -
    have "\<not> timestamp q \<le> target" if "q \<in> set pts" for q
      using assms(2) that \<open>target < timestamp (hd pts)\<close> by (auto simp: pts)
    then show ?thesis using none by blast
  qed
  have after: "p = last pts" if "timestamp (last pts) \<le> target"
  proof -
    have "timestamp q \<le> target" if "q \<in> set pts" for q
      using sorted_last_max [OF assms(2) that] \<open>timestamp (last pts) \<le> target\<close> by simp
    then have "filter ?P pts = pts" by (simp add: filter_id_conv)
    then show ?thesis by (simp add: p_def pts)
  qed
  show ?thesis
    using sel mem some none before after by (intro exI [of _ p]) simp
qed

theorem point_at_latest_witness:
  "point_at [track_point 1 1 10 None 0, track_point 2 2 20 None 0, track_point 3 3 30 None 0] 25
     = Some (track_point 2 2 20 None 0)"
  using point_at_latest
    [of "[track_point 1 1 10 None 0, track_point 2 2 20 None 0, track_point 3 3 30 None 0]" 25]
  by (simp add: point_at_def track_point_def)

section \<open>Thinning\<close>

lemma haversine_poles: "haversine 90 lo (- 90) lo = 6371000 * pi"
proof -
  have a: "toRad (- 90 - 90) / 2 = - (pi / 2)" "toRad 90 = pi / 2" "toRad (lo - lo) / 2 = 0"
    by (simp_all add: toRad_def)
  show ?thesis
    unfolding haversine_def Let_def a
    by (simp add: atan2_def)
qed

lemma enrich_fields:
  "lat (enrich lp zones p) = lat p" "lng (enrich lp zones p) = lng p"
  "timestamp (enrich lp zones p) = timestamp p"
  by (simp_all add: enrich_def Let_def split: option.splits)

lemma geo_distance_enrich:
  "geo_distance a (enrich lp zones p) = geo_distance a p"
  "geo_distance (enrich lp zones p) b = geo_distance p b"
  by (simp_all add: geo_distance_def enrich_fields)

lemma thin_timestamps: "timestamp ` set (thin lp zones ps) \<subseteq> timestamp ` set ps"
proof (induction ps arbitrary: lp)
  case Nil
  show ?case by simp
next
  case (Cons p ps)
  show ?case
    using Cons.IH [of lp] Cons.IH [of "Some (enrich lp zones p)"]
    by (auto simp: Let_def enrich_fields)
qed

lemma thin_sorted:
  "sorted (map timestamp ps) \<Longrightarrow> sorted (map timestamp (thin lp zones ps))"
proof (induction ps arbitrary: lp)
  case Nil
  show ?case by simp
next
  case (Cons p ps)
  from Cons.prems have le: "\<forall>t\<in>timestamp ` set ps. timestamp p \<le> t"
    and srt: "sorted (map timestamp ps)"
    by auto
  have "\<forall>t\<in>timestamp ` set (thin lp' zones ps). timestamp p \<le> t" for lp'
    using le thin_timestamps [of lp' zones ps] by blast
  then show ?case
    using Cons.IH [OF srt] by (auto simp: Let_def enrich_fields)
qed

lemma thin_apart:
  "successively (\<lambda>a b. geo_distance a b > 15) (thin lp zones ps) \<and>
   (\<forall>l x xs. lp = Some l \<and> thin lp zones ps = x # xs \<longrightarrow> geo_distance l x > 15)"
proof (induction ps arbitrary: lp)
  case Nil
  show ?case by simp
next
  case (Cons p ps)
  show ?case
  proof (cases "case lp of None \<Rightarrow> True | Some l \<Rightarrow> geo_distance l p > 15")
    case True
    let ?k = "enrich lp zones p"
    have eq: "thin lp zones (p # ps) = ?k # thin (Some ?k) zones ps"
      using True by (simp add: Let_def)
    have "successively (\<lambda>a b. geo_distance a b > 15) (?k # thin (Some ?k) zones ps)"
      using Cons.IH [of "Some ?k"] by (cases "thin (Some ?k) zones ps") simp_all
    moreover have "geo_distance l ?k > 15" if "lp = Some l" for l
      using True that by (simp add: geo_distance_enrich)
    ultimately show ?thesis unfolding eq by simp
  next
    case False
    then have eq: "thin lp zones (p # ps) = thin lp zones ps" by simp
    show ?thesis unfolding eq by (rule Cons.IH)
  qed
qed

lemma those_map_Some:
  "\<forall>x\<in>set xs. f x \<noteq> None \<Longrightarrow> \<exists>ys. those (map f xs) = Some ys"
  by (induction xs) auto

lemma to_point_Some:
  assumes "h \<in> set (filter_samples history)" and "sample_timestamp h \<noteq> None"
  shows "to_point h \<noteq> None"
  using assms
  by (auto simp: filter_samples_def has_coords_def to_point_def split: option.splits)

lemma processHistory_returns:
  assumes "\<forall>h\<in>set history. sample_timestamp h \<noteq> None"
  shows "\<exists>r. processHistory history zones = Some r"
proof -
  have "\<forall>h\<in>set (filter_samples history). to_point h \<noteq> None"
    using assms to_point_Some [of _ history] by (auto simp: filter_samples_def)
  from those_map_Some [OF this] show ?thesis
    by (auto simp: processHistory_def Let_def)
qed

lemma processHistory_points:
  assumes "processHistory history zones = Some r"
  shows "sorted (map timestamp (points r)) \<and>
         successively (\<lambda>a b. geo_distance a b > 15) (points r) \<and>
         (\<exists>pts. those (map to_point (filter_samples history)) = Some pts \<and>
            (pts = [] \<longrightarrow> points r = []) \<and>
            (pts \<noteq> [] \<longrightarrow> points r \<noteq> [] \<and>
               hd (points r) = enrich None zones (hd (sort_key timestamp pts))))"
proof -
  from assms obtain pts where pts: "those (map to_point (filter_samples history)) = Some pts"
    and r: "points r = thin None zones (sort_key timestamp pts)"
    by (auto simp: processHistory_def Let_def split: option.splits)
  have "sorted (map timestamp (points r))"
    unfolding r by (intro thin_sorted) simp
  moreover have "successively (\<lambda>a b. geo_distance a b > 15) (points r)"
    unfolding r using thin_apart by blast
  moreover have "points r = []" if "pts = []"
    using that r by simp
  moreover have "points r \<noteq> [] \<and> hd (points r) = enrich None zones (hd (sort_key timestamp pts))"
    if "pts \<noteq> []"
  proof -
    from that have "sort_key timestamp pts \<noteq> []"
      by (metis length_sort length_0_conv)
    then obtain p ps where "sort_key timestamp pts = p # ps"
      by (cases "sort_key timestamp pts") auto
    then show ?thesis unfolding r by (simp add: Let_def)
  qed
  ultimately show ?thesis using pts by blast
qed


text \<open>
  C4 (as amended). When every raw sample carries an instant, \<^verbatim>\<open>processHistory\<close> returns, and
  in the returned \<^verbatim>\<open>points\<close> the instants never decrease (two points may share an instant)
  and every point after the first lies more than 15 m (haversine, Earth radius 6,371,000 m)
  from its predecessor; the earliest surviving sample, the first one after the stable sort,
  is always kept as the first point.
\<close>

theorem processHistory_ordered_apart:
  assumes "\<forall>h\<in>set history. sample_timestamp h \<noteq> None"
  shows "\<exists>r pts. processHistory history zones = Some r \<and>
           sorted (map timestamp (points r)) \<and>
           successively (\<lambda>a b. geo_distance a b > 15) (points r) \<and>
           those (map to_point (filter_samples history)) = Some pts \<and>
           (pts = [] \<longrightarrow> points r = []) \<and>
           (pts \<noteq> [] \<longrightarrow> points r \<noteq> [] \<and>
              hd (points r) = enrich None zones (hd (sort_key timestamp pts)))"
  using processHistory_returns [OF assms, of zones] processHistory_points [of history zones]
  by blast

lemma far_apart: "15 < 6371000 * pi"
proof -
  have "(15 :: real) < 6371000 * 2" by simp
  also have "\<dots> \<le> 6371000 * pi" using pi_ge_two by simp
  finally show ?thesis .
qed

text \<open>
  C4 as stated fails: two samples with the same instant, one at each pole, are both kept,
  so the instants of the returned points are not strictly increasing.
\<close>

theorem equal_instants_both_kept:
  "map_option (\<lambda>r. sorted_wrt (<) (map timestamp (points r)))
     (processHistory [raw_sample 90 1 1000, raw_sample (- 90) 1 1000] []) = Some False"
proof -
  let ?A = "raw_sample 90 1 1000" and ?B = "raw_sample (- 90) 1 1000"
  have f: "filter_samples [?A, ?B] = [?A, ?B]"
    by (simp add: filter_samples_def has_coords_def coords_in_range_def coords_nonzero_def
          raw_sample_def)
  obtain PA PB where P: "to_point ?A = Some PA" "to_point ?B = Some PB"
    and sel: "lat PA = 90" "lng PA = 1" "timestamp PA = 1000"
             "lat PB = - 90" "lng PB = 1" "timestamp PB = 1000"
    by (simp add: to_point_def raw_sample_def sample_timestamp_def)
  have srt: "sort_key timestamp [PA, PB] = [PA, PB]"
    by (simp add: sel)
  have d: "geo_distance (enrich None [] PA) PB > 15"
    by (simp add: geo_distance_def enrich_fields sel haversine_poles far_apart)
  have "thin None [] [PA, PB] = [enrich None [] PA, enrich (Some (enrich None [] PA)) [] PB]"
    using d by (simp add: Let_def)
  then have tm: "map timestamp (thin None [] [PA, PB]) = [1000, 1000]"
    by (simp add: enrich_fields sel)
  have "map_option (\<lambda>r. map timestamp (points r)) (processHistory [?A, ?B] [])
          = Some (map timestamp (thin None [] [PA, PB]))"
    by (simp add: processHistory_def f P sel Let_def del: thin.simps)
  then have "map_option (\<lambda>r. map timestamp (points r)) (processHistory [?A, ?B] [])
          = Some [1000, 1000]"
    unfolding tm .
  then show ?thesis
    by (cases "processHistory [?A, ?B] []") simp_all
qed

theorem processHistory_ordered_apart_witness:
  "\<exists>r. processHistory [raw_sample 90 1 1000, raw_sample (- 90) 1 1000] [] = Some r \<and>
        sorted (map timestamp (points r)) \<and>
        successively (\<lambda>a b. geo_distance a b > 15) (points r)"
proof -
  have "\<forall>h\<in>set [raw_sample 90 1 1000, raw_sample (- 90) 1 1000]. sample_timestamp h \<noteq> None"
    by (simp add: raw_sample_def sample_timestamp_def)
  from processHistory_ordered_apart [OF this, of "[]"] show ?thesis
    by blast
qed


section \<open>Trip detection\<close>

lemma slice_Suc: "s \<le> i \<Longrightarrow> i < length xs \<Longrightarrow> slice xs s (Suc i) = slice xs s i @ [xs ! i]"
  by (simp add: slice_def Suc_diff_le take_Suc_conv_app_nth)

lemma slice_single: "i < length xs \<Longrightarrow> slice xs i (Suc i) = [xs ! i]"
  by (simp add: slice_Suc) (simp add: slice_def)

lemma closed_run_not_at_moving:
  "isMoving (pts ! i) \<Longrightarrow> \<not> closed_run pts s i"
  by (auto simp: closed_run_def moving_run_def)

lemma closed_run_start_after:
  assumes "closed_run pts s e" and "i < e" and "\<not> isMoving (pts ! i)"
  shows "i < s"
proof (rule ccontr)
  assume "\<not> i < s"
  then have "i \<in> {s..<e}" using assms(2) by simp
  with assms(1) have "isMoving (pts ! i)" by (simp add: closed_run_def moving_run_def)
  with assms(3) show False by simp
qed

lemma run_start_unique:
  assumes "s < i" and "\<forall>j\<in>{s..<i}. isMoving (pts ! j)" and "s = 0 \<or> \<not> isMoving (pts ! (s - 1))"
    and "s' < i" and "\<forall>j\<in>{s'..<i}. isMoving (pts ! j)" and "s' = 0 \<or> \<not> isMoving (pts ! (s' - 1))"
  shows "s = s'"
proof (rule ccontr)
  assume "s \<noteq> s'"
  then consider "s < s'" | "s' < s" by linarith
  then show False
  proof cases
    case 1
    then have "s' - 1 \<in> {s..<i}" and "s' \<noteq> 0" using assms(4) by auto
    with assms(2,6) show False by blast
  next
    case 2
    then have "s - 1 \<in> {s'..<i}" and "s \<noteq> 0" using assms(1) by auto
    with assms(5,3) show False by blast
  qed
qed

lemma big_runs_skip:
  assumes "\<And>s. \<not> closed_run pts s i"
  shows "big_runs pts i = big_runs pts (Suc i)"
proof -
  have "i \<le> e \<longleftrightarrow> Suc i \<le> e" if "closed_run pts s e" for s e
    using that assms by (cases "e = i") auto
  then show ?thesis by (auto simp: big_runs_def)
qed

lemma big_runs_close:
  assumes "closed_run pts s i" and "\<And>s'. closed_run pts s' i \<Longrightarrow> s' = s"
  shows "big_runs pts i
           = (if routeDistance (slice pts s i) > 0.1 then {(s, i)} else {}) \<union> big_runs pts (Suc i)"
proof -
  have "i \<le> e \<longleftrightarrow> (s', e) = (s, i) \<or> Suc i \<le> e" if "closed_run pts s' e" for s' e
    using that assms(2) by (cases "e = i") auto
  then show ?thesis using assms(1) by (auto simp: big_runs_def)
qed

lemma detect_loop_runs:
  assumes "pts = pre @ ps" and "i = length pre" and "open_inv pts i cur"
  shows "\<exists>rs. map tripPoints (detect_loop prev cur ps) = map (\<lambda>(s, e). slice pts s e) rs \<and>
              sorted_wrt range_before rs \<and> set rs = big_runs pts i"
  using assms
proof (induction ps arbitrary: pre i cur prev)
  case Nil
  then have "big_runs pts i = {}"
    by (auto simp: big_runs_def closed_run_def)
  then show ?case by simp
next
  case (Cons p ps)
  from Cons.prems(1,2) have pi: "pts ! i = p" and ilt: "i < length pts"
    by simp_all
  from Cons.prems(1,2) have dec: "pts = (pre @ [p]) @ ps" "Suc i = length (pre @ [p])"
    by simp_all
  note IH = Cons.IH [OF dec]
  show ?case
  proof (cases cur)
    case None
    with Cons.prems(3) have inv: "i = 0 \<or> \<not> isMoving (pts ! (i - 1))"
      by (simp add: open_inv_def)
    show ?thesis
    proof (cases "isMoving p")
      case True
      let ?c = "\<lparr> startTime = timestamp p,
                  startZone = (case prev of None \<Rightarrow> None | Some q \<Rightarrow> or_null (zone q)),
                  tripPoints = [p], tripMaxSpeed = speed p \<rparr>"
      have "open_inv pts (Suc i) (Some ?c)"
        unfolding open_inv_def using inv True pi ilt
        by (auto simp: slice_single intro!: exI [of _ i])
      from IH [OF this, of "Some p"] obtain rs where
        rs: "map tripPoints (detect_loop (Some p) (Some ?c) ps) = map (\<lambda>(s, e). slice pts s e) rs"
          "sorted_wrt range_before rs" "set rs = big_runs pts (Suc i)"
        by blast
      have "big_runs pts i = big_runs pts (Suc i)"
        using True pi by (intro big_runs_skip closed_run_not_at_moving) simp
      with rs show ?thesis
        using None True by auto
    next
      case False
      have "open_inv pts (Suc i) None"
        using False pi by (simp add: open_inv_def)
      from IH [OF this, of "Some p"] obtain rs where
        rs: "map tripPoints (detect_loop (Some p) None ps) = map (\<lambda>(s, e). slice pts s e) rs"
          "sorted_wrt range_before rs" "set rs = big_runs pts (Suc i)"
        by blast
      have "\<not> closed_run pts s i" for s
      proof
        assume "closed_run pts s i"
        then have "s < i" and "\<forall>j\<in>{s..<i}. isMoving (pts ! j)"
          by (simp_all add: closed_run_def moving_run_def)
        then have "isMoving (pts ! (i - 1))" and "i \<noteq> 0" by auto
        with inv show False by simp
      qed
      then have "big_runs pts i = big_runs pts (Suc i)"
        by (rule big_runs_skip)
      with rs show ?thesis
        using None False by auto
    qed
  next
    case (Some c)
    with Cons.prems(3) obtain s where s: "s < i" "tripPoints c = slice pts s i"
        "\<forall>j\<in>{s..<i}. isMoving (pts ! j)" "s = 0 \<or> \<not> isMoving (pts ! (s - 1))"
      by (auto simp: open_inv_def)
    show ?thesis
    proof (cases "isMoving p")
      case True
      let ?c = "c \<lparr> tripPoints := tripPoints c @ [p],
                    tripMaxSpeed := (if speed p > tripMaxSpeed c then speed p
                                     else tripMaxSpeed c) \<rparr>"
      have "\<forall>j\<in>{s..<Suc i}. isMoving (pts ! j)"
        using s(3) True pi by (auto simp: less_Suc_eq)
      then have "open_inv pts (Suc i) (Some ?c)"
        unfolding open_inv_def using s ilt pi
        by (auto simp: slice_Suc intro!: exI [of _ s])
      from IH [OF this, of "Some p"] obtain rs where
        rs: "map tripPoints (detect_loop (Some p) (Some ?c) ps) = map (\<lambda>(s, e). slice pts s e) rs"
          "sorted_wrt range_before rs" "set rs = big_runs pts (Suc i)"
        by blast
      have "big_runs pts i = big_runs pts (Suc i)"
        using True pi by (intro big_runs_skip closed_run_not_at_moving) simp
      with rs show ?thesis
        using Some True by auto
    next
      case False
      have "open_inv pts (Suc i) None"
        using False pi by (simp add: open_inv_def)
      from IH [OF this, of "Some p"] obtain rs where
        rs: "map tripPoints (detect_loop (Some p) None ps) = map (\<lambda>(s, e). slice pts s e) rs"
          "sorted_wrt range_before rs" "set rs = big_runs pts (Suc i)"
        by blast
      have run: "closed_run pts s i"
        using s False pi ilt by (simp add: closed_run_def moving_run_def)
      have uniq: "s' = s" if "closed_run pts s' i" for s'
        using that s run_start_unique [of s' i pts s]
        by (simp add: closed_run_def moving_run_def)
      note big = big_runs_close [OF run uniq]
      let ?t = "close_trip c p"
      have t: "tripPoints ?t = slice pts s i" "tripDistance ?t = routeDistance (slice pts s i)"
        using s(2) by (simp_all add: close_trip_def OpenTrip.defs)
      let ?rs = "(if routeDistance (slice pts s i) > 0.1 then [(s, i)] else []) @ rs"
      have after: "range_before (s, i) r" if "r \<in> set rs" for r
      proof -
        from that rs(3) have "closed_run pts (fst r) (snd r)" and "Suc i \<le> snd r"
          by (auto simp: big_runs_def)
        then have "i < fst r"
          using closed_run_start_after [of pts "fst r" "snd r" i] False pi by simp
        then show ?thesis by (simp add: range_before_def)
      qed
      have "map tripPoints (detect_loop prev cur (p # ps)) = map (\<lambda>(s, e). slice pts s e) ?rs"
        using Some False rs(1) t by (simp add: Let_def)
      moreover have "sorted_wrt range_before ?rs"
        using rs(2) after by (simp add: sorted_wrt_append)
      moreover have "set ?rs = big_runs pts i"
        using rs(3) big by simp
      ultimately show ?thesis by blast
    qed
  qed
qed


text \<open>
  C1 (as amended). The trips returned by \<^verbatim>\<open>_detectTrips\<close> are, in order, exactly the closed
  moving runs whose route distance exceeds 0.1 km: each trip holds the points of one maximal
  run of consecutive moving points that is followed by a non-moving point, every such run
  longer than 0.1 km has its trip, and the ranges of the trips lie one before the other, so
  they never overlap. A moving run that extends to the end of the sequence is not emitted.
\<close>

theorem detectTrips_closed_runs:
  "\<exists>rs. map tripPoints (detectTrips pts) = map (\<lambda>(s, e). slice pts s e) rs \<and>
        sorted_wrt range_before rs \<and>
        set rs = {(s, e). closed_run pts s e \<and> routeDistance (slice pts s e) > 0.1}"
proof -
  have "open_inv pts 0 None" by (simp add: open_inv_def)
  from detect_loop_runs [of pts "[]" pts 0 None None, OF _ _ this]
  show ?thesis by (simp add: detectTrips_def big_runs_def)
qed

lemma pole_to_pole: "routeDistance [track_point 90 1 t None v, track_point (- 90) 1 t' None v'] > 0.1"
proof -
  have "(100 :: real) < 6371000 * 2" by simp
  also have "\<dots> \<le> 6371000 * pi" using pi_ge_two by simp
  finally show ?thesis
    by (simp add: routeDistance_def geo_distance_def track_point_def haversine_poles)
qed

lemma range_1_3: "{Suc 0..<3} = {Suc 0, 2}"
  by auto

theorem detectTrips_closed_runs_witness:
  "\<exists>rs. map tripPoints (detectTrips
            [track_point (- 90) 1 0 None 0, track_point 90 1 1000 None 30,
             track_point (- 90) 1 2000 None 30, track_point (- 90) 2 3000 None 0])
          = map (\<lambda>(s, e). slice
              [track_point (- 90) 1 0 None 0, track_point 90 1 1000 None 30,
               track_point (- 90) 1 2000 None 30, track_point (- 90) 2 3000 None 0] s e) rs \<and>
        (1, 3) \<in> set rs"
proof -
  let ?ex = "[track_point (- 90) 1 0 None 0, track_point 90 1 1000 None 30,
              track_point (- 90) 1 2000 None 30, track_point (- 90) 2 3000 None 0]"
  have sl: "slice ?ex 1 3 = [track_point 90 1 1000 None 30, track_point (- 90) 1 2000 None 30]"
    by (simp add: slice_def)
  have "closed_run ?ex 1 3"
    by (simp add: closed_run_def moving_run_def range_1_3 track_point_def geo_isMoving_def)
  moreover have "routeDistance (slice ?ex 1 3) > 0.1"
    unfolding sl by (rule pole_to_pole)
  ultimately show ?thesis
    using detectTrips_closed_runs [of ?ex] by auto
qed

text \<open>
  C1 as stated fails: the last two of these three points are a maximal moving run that
  extends to the end of the sequence, its route distance exceeds 0.1 km, and no trip is
  emitted.
\<close>

theorem open_run_not_emitted:
  "moving_run [track_point (- 90) 1 0 None 0, track_point 90 1 1000 None 30,
               track_point (- 90) 1 2000 None 30] 1 3 \<and>
   routeDistance (slice [track_point (- 90) 1 0 None 0, track_point 90 1 1000 None 30,
                         track_point (- 90) 1 2000 None 30] 1 3) > 0.1 \<and>
   detectTrips [track_point (- 90) 1 0 None 0, track_point 90 1 1000 None 30,
                track_point (- 90) 1 2000 None 30] = []"
proof -
  let ?ex = "[track_point (- 90) 1 0 None 0, track_point 90 1 1000 None 30,
              track_point (- 90) 1 2000 None 30]"
  have sl: "slice ?ex 1 3 = [track_point 90 1 1000 None 30, track_point (- 90) 1 2000 None 30]"
    by (simp add: slice_def)
  have "moving_run ?ex 1 3"
    by (simp add: moving_run_def range_1_3 track_point_def geo_isMoving_def)
  moreover have "routeDistance (slice ?ex 1 3) > 0.1"
    unfolding sl by (rule pole_to_pole)
  moreover have "detectTrips ?ex = []"
    by (simp add: detectTrips_def track_point_def geo_isMoving_def)
  ultimately show ?thesis by blast
qed

section \<open>Statistics\<close>

text \<open>
  The invariant of the loop of \<^verbatim>\<open>_calculateStats\<close>. Every interval goes to \<^verbatim>\<open>movingTime\<close>
  or to \<^verbatim>\<open>stationaryTime\<close>, and to \<^verbatim>\<open>drivingTime\<close> only together with \<^verbatim>\<open>movingTime\<close>; each
  addition rounds, so the two sums follow the elapsed time up to one rounding per step.
\<close>

lemma stats_loop_inv:
  assumes "stats_loop prev ps (mv, st, dr) = (mv', st', dr')"
    and "sorted (map timestamp (prev # ps))"
    and "0 \<le> mv" "0 \<le> st" "0 \<le> dr" "dr \<le> mv" "fl dr = dr"
    and "(1 - eps) ^ j * T \<le> mv + st" "mv + st \<le> (1 + eps) ^ j * T" "0 \<le> T" "2 \<le> j"
  shows "dr' \<le> mv' \<and>
         (1 - eps) ^ (j + length ps)
            * (T + real_of_int (timestamp (last (prev # ps)) - timestamp prev) / 1000)
           \<le> mv' + st' \<and>
         mv' + st' \<le> (1 + eps) ^ (j + length ps)
            * (T + real_of_int (timestamp (last (prev # ps)) - timestamp prev) / 1000)"
  using assms
proof (induction ps arbitrary: prev mv st dr j T)
  case Nil
  then show ?case by simp
next
  case (Cons p ps)
  let ?ms = "timestamp p - timestamp prev"
  let ?d = "real_of_int ?ms / 1000" and ?dt = "seconds ?ms"
  from Cons.prems(2) have ms: "0 \<le> ?ms" and srt: "sorted (map timestamp (p # ps))"
    by simp_all
  note sr = seconds_rel [OF ms]
  have d0: "0 \<le> ?d" using ms by simp
  have T': "0 \<le> T + ?d" using Cons.prems(10) d0 by simp
  have j': "2 \<le> Suc j" using Cons.prems(11) by simp
  have tel: "T + ?d + real_of_int (timestamp (last (p # ps)) - timestamp p) / 1000
               = T + real_of_int (timestamp (last (prev # p # ps)) - timestamp prev) / 1000"
    using ms_split [of "timestamp p" "timestamp prev" "timestamp (last (p # ps))"] by simp
  have len: "Suc j + length ps = j + length (p # ps)" by simp
  consider (drv) "isDriving p" | (mov) "\<not> isDriving p" "isMoving p"
    | (stat) "\<not> isDriving p" "\<not> isMoving p"
    by blast
  then have "dr' \<le> mv' \<and>
         (1 - eps) ^ (Suc j + length ps)
            * (T + ?d + real_of_int (timestamp (last (p # ps)) - timestamp p) / 1000)
           \<le> mv' + st' \<and>
         mv' + st' \<le> (1 + eps) ^ (Suc j + length ps)
            * (T + ?d + real_of_int (timestamp (last (p # ps)) - timestamp p) / 1000)"
  proof cases
    case drv
    with Cons.prems(1) have loop: "stats_loop p ps (fl (mv + ?dt), st, fl (dr + ?dt)) = (mv', st', dr')"
      by (simp add: Let_def)
    have c: "0 \<le> mv" "mv \<le> mv + st" using Cons.prems(3,4) by simp_all
    note b = acc_step [OF c Cons.prems(8,9,10) d0 sr(2,3) Cons.prems(11)]
    have n1: "0 \<le> fl (mv + ?dt)" using Cons.prems(3) sr(1) by (intro fl_nonneg) simp
    have n2: "0 \<le> fl (dr + ?dt)" using Cons.prems(5) sr(1) by (intro fl_nonneg) simp
    have le: "fl (dr + ?dt) \<le> fl (mv + ?dt)"
      using Cons.prems(5,6) sr(1) by (intro fl_mono) simp_all
    have id: "fl (fl (dr + ?dt)) = fl (dr + ?dt)"
      using Cons.prems(5) sr(1) by (intro fl_idem) simp
    from b have b1: "(1 - eps) ^ Suc j * (T + ?d) \<le> fl (mv + ?dt) + st"
      and b2: "fl (mv + ?dt) + st \<le> (1 + eps) ^ Suc j * (T + ?d)"
      by simp_all
    from Cons.IH [OF loop srt n1 Cons.prems(4) n2 le id b1 b2 T' j'] show ?thesis .
  next
    case mov
    with Cons.prems(1) have loop: "stats_loop p ps (fl (mv + ?dt), st, dr) = (mv', st', dr')"
      by (simp add: Let_def)
    have c: "0 \<le> mv" "mv \<le> mv + st" using Cons.prems(3,4) by simp_all
    note b = acc_step [OF c Cons.prems(8,9,10) d0 sr(2,3) Cons.prems(11)]
    have n1: "0 \<le> fl (mv + ?dt)" using Cons.prems(3) sr(1) by (intro fl_nonneg) simp
    have "fl dr \<le> fl (mv + ?dt)"
      using Cons.prems(5,6) sr(1) by (intro fl_mono) simp_all
    then have le: "dr \<le> fl (mv + ?dt)" using Cons.prems(7) by simp
    from b have b1: "(1 - eps) ^ Suc j * (T + ?d) \<le> fl (mv + ?dt) + st"
      and b2: "fl (mv + ?dt) + st \<le> (1 + eps) ^ Suc j * (T + ?d)"
      by simp_all
    from Cons.IH [OF loop srt n1 Cons.prems(4,5) le Cons.prems(7) b1 b2 T' j'] show ?thesis .
  next
    case stat
    with Cons.prems(1) have loop: "stats_loop p ps (mv, fl (st + ?dt), dr) = (mv', st', dr')"
      by (simp add: Let_def)
    have c: "0 \<le> st" "st \<le> mv + st" using Cons.prems(3,4) by simp_all
    note b = acc_step [OF c Cons.prems(8,9,10) d0 sr(2,3) Cons.prems(11)]
    have n1: "0 \<le> fl (st + ?dt)" using Cons.prems(4) sr(1) by (intro fl_nonneg) simp
    from b have b1: "(1 - eps) ^ Suc j * (T + ?d) \<le> mv + fl (st + ?dt)"
      and b2: "mv + fl (st + ?dt) \<le> (1 + eps) ^ Suc j * (T + ?d)"
      by simp_all
    from Cons.IH [OF loop srt Cons.prems(3) n1 Cons.prems(5,6,7) b1 b2 T' j'] show ?thesis .
  qed
  then show ?case unfolding tel len .
qed

text \<open>
  C10 (as amended). For a sequence of at least 2 points in time order, \<^verbatim>\<open>drivingTime\<close> is at
  most \<^verbatim>\<open>movingTime\<close>, exactly. The sum of \<^verbatim>\<open>movingTime\<close> and \<^verbatim>\<open>stationaryTime\<close> agrees with
  the elapsed time \<open>D\<close> from the first to the last point, in seconds, up to the rounding of
  the additions: it lies between \<open>(1 - eps) ^ (n + 1) * D\<close> and \<open>(1 + eps) ^ (n + 1) * D\<close> for
  \<open>n\<close> points, where \<open>eps\<close> is \<open>2\<close> to the power \<open>-53\<close>. The field \<^verbatim>\<open>duration\<close> is \<open>D\<close> rounded
  twice (the difference of the instants, then the quotient by 1000).
\<close>

theorem stats_time_partition:
  assumes "2 \<le> length pts" and "sorted (map timestamp pts)"
  shows "drivingTime (calculateStats pts) \<le> movingTime (calculateStats pts) \<and>
         (1 - eps) ^ (length pts + 1) * (real_of_int (timestamp (last pts) - timestamp (hd pts)) / 1000)
           \<le> movingTime (calculateStats pts) + stationaryTime (calculateStats pts) \<and>
         movingTime (calculateStats pts) + stationaryTime (calculateStats pts)
           \<le> (1 + eps) ^ (length pts + 1) * (real_of_int (timestamp (last pts) - timestamp (hd pts)) / 1000) \<and>
         (1 - eps)\<^sup>2 * (real_of_int (timestamp (last pts) - timestamp (hd pts)) / 1000)
           \<le> duration (calculateStats pts) \<and>
         duration (calculateStats pts)
           \<le> (1 + eps)\<^sup>2 * (real_of_int (timestamp (last pts) - timestamp (hd pts)) / 1000)"
proof -
  obtain p0 p1 rest where pts: "pts = p0 # p1 # rest"
    using assms(1) by (cases pts; cases "tl pts") auto
  obtain mv st dr where loop: "stats_loop p0 (p1 # rest) (0, 0, 0) = (mv, st, dr)"
    by (cases "stats_loop p0 (p1 # rest) (0, 0, 0)") auto
  have sel: "movingTime (calculateStats pts) = mv" "stationaryTime (calculateStats pts) = st"
    "drivingTime (calculateStats pts) = dr"
    "duration (calculateStats pts) = seconds (timestamp (last pts) - timestamp (hd pts))"
    using loop by (simp_all add: calculateStats_def pts Let_def del: stats_loop.simps)
  have srt: "sorted (map timestamp (p0 # p1 # rest))" using assms(2) by (simp only: pts)
  have z: "(0 :: real) \<le> 0" "fl 0 = 0" "(1 - eps) ^ 2 * 0 \<le> (0 :: real) + 0"
    "(0 :: real) + 0 \<le> (1 + eps) ^ 2 * 0" "(2 :: nat) \<le> 2"
    by (simp_all add: fl_zero)
  from stats_loop_inv [OF loop srt z(1) z(1) z(1) z(1) z(2) z(3) z(4) z(1) z(5)]
  have a: "dr \<le> mv"
    and b: "(1 - eps) ^ (length pts + 1) * (real_of_int (timestamp (last pts) - timestamp (hd pts)) / 1000) \<le> mv + st"
    and c: "mv + st \<le> (1 + eps) ^ (length pts + 1) * (real_of_int (timestamp (last pts) - timestamp (hd pts)) / 1000)"
    by (simp_all add: pts)
  have "timestamp (hd pts) \<le> timestamp (last pts)"
    using assms(2) by (auto simp: pts)
  then have "0 \<le> timestamp (last pts) - timestamp (hd pts)" by simp
  note d = seconds_rel(2,3) [OF this]
  show ?thesis unfolding sel using a b c d by blast
qed

theorem stats_time_partition_witness:
  "drivingTime (calculateStats [track_point 1 1 0 None 0, track_point 2 2 60000 None 30,
       track_point 3 3 90000 None 10, track_point 4 4 100000 None 1])
     \<le> movingTime (calculateStats [track_point 1 1 0 None 0, track_point 2 2 60000 None 30,
       track_point 3 3 90000 None 10, track_point 4 4 100000 None 1])"
proof -
  let ?ex = "[track_point 1 1 0 None 0, track_point 2 2 60000 None 30,
       track_point 3 3 90000 None 10, track_point 4 4 100000 None 1]"
  have "2 \<le> length ?ex" by simp
  moreover have "sorted (map timestamp ?ex)" by (simp add: track_point_def)
  ultimately show ?thesis using stats_time_partition [of ?ex] by blast
qed

text \<open>
  C10 as stated fails: for three stationary points at 0 ms, 100 ms and 300 ms,
  \<^verbatim>\<open>stationaryTime\<close> is the double \<^verbatim>\<open>0.1 + 0.2 = 0.30000000000000004\<close> and \<^verbatim>\<open>duration\<close> is the
  double \<^verbatim>\<open>0.3\<close>; the sum of \<^verbatim>\<open>movingTime\<close> and \<^verbatim>\<open>stationaryTime\<close> differs from \<^verbatim>\<open>duration\<close>,
  whether it is taken exactly or rounded to a double as \<^verbatim>\<open>+\<close> does.
\<close>

theorem stats_sum_rounds:
  "movingTime (calculateStats [track_point 1 1 0 None 0, track_point 1 1 100 None 0,
                               track_point 1 1 300 None 0])
     + stationaryTime (calculateStats [track_point 1 1 0 None 0, track_point 1 1 100 None 0,
                                       track_point 1 1 300 None 0])
   \<noteq> duration (calculateStats [track_point 1 1 0 None 0, track_point 1 1 100 None 0,
                                track_point 1 1 300 None 0]) \<and>
   fl (movingTime (calculateStats [track_point 1 1 0 None 0, track_point 1 1 100 None 0,
                                   track_point 1 1 300 None 0])
       + stationaryTime (calculateStats [track_point 1 1 0 None 0, track_point 1 1 100 None 0,
                                         track_point 1 1 300 None 0]))
   \<noteq> duration (calculateStats [track_point 1 1 0 None 0, track_point 1 1 100 None 0,
                                track_point 1 1 300 None 0])"
proof -
  let ?ex = "[track_point 1 1 0 None 0, track_point 1 1 100 None 0, track_point 1 1 300 None 0]"
  have f: "fl (seconds 100) = seconds 100" by (rule fl_seconds) simp
  have v: "movingTime (calculateStats ?ex) = 0"
    "stationaryTime (calculateStats ?ex) = fl (seconds 100 + seconds 200)"
    "duration (calculateStats ?ex) = seconds 300"
    by (simp_all add: calculateStats_def track_point_def geo_isMoving_def geo_isDriving_def
          Let_def f)
  have "0 \<le> seconds 100 + seconds 200"
    by (simp add: seconds_100 seconds_200)
  then have i: "fl (0 + fl (seconds 100 + seconds 200)) = fl (seconds 100 + seconds 200)"
    by (simp add: fl_idem)
  show ?thesis
    unfolding v i by (simp add: sum_100_200 seconds_300)
qed

section \<open>Zone time\<close>

text \<open>
  The table of \<^verbatim>\<open>_calculateZoneTime\<close>: an assignment changes the total of the durations by
  the difference of the new and the old entry, the keys stay distinct, and the entries are
  empty after the initialisation.
\<close>

lemma total_set_entry:
  "total_duration (set_entry k v tbl)
     = total_duration tbl - (case map_of tbl k of None \<Rightarrow> 0 | Some e \<Rightarrow> zt_duration e) + zt_duration v"
  by (induction tbl) (auto simp: total_duration_def)


lemma set_set_entry: "set (set_entry k v tbl) \<subseteq> insert (k, v) (set tbl)"
proof (induction tbl)
  case Nil
  show ?case by simp
next
  case (Cons x tbl)
  obtain k' v' where x: "x = (k', v')" by (cases x)
  show ?case
  proof (cases "k = k'")
    case True
    then show ?thesis by (simp add: x) blast
  next
    case False
    with Cons.IH show ?thesis by (simp add: x) blast
  qed
qed

lemma zero_set_entry:
  assumes "\<forall>x\<in>set tbl. snd x = empty_entry"
  shows "\<forall>x\<in>set (set_entry k empty_entry tbl). snd x = empty_entry"
proof
  fix x assume "x \<in> set (set_entry k empty_entry tbl)"
  then have "x = (k, empty_entry) \<or> x \<in> set tbl"
    using set_set_entry [of k empty_entry tbl] by blast
  then show "snd x = empty_entry" using assms by auto
qed

lemma zero_fold:
  "\<forall>x\<in>set tbl. snd x = empty_entry \<Longrightarrow>
     \<forall>x\<in>set (foldl (\<lambda>tbl z. set_entry (z_name z) empty_entry tbl) tbl zs). snd x = empty_entry"
proof (induction zs arbitrary: tbl)
  case Nil
  then show ?case by simp
next
  case (Cons z zs)
  from Cons.IH [OF zero_set_entry [OF Cons.prems]] show ?case by simp
qed

lemma init_entries: "\<forall>x\<in>set (init_zoneTime zones). snd x = empty_entry"
proof -
  have "\<forall>x\<in>set ([] :: ZoneTime). snd x = empty_entry" by simp
  from zero_set_entry [OF zero_fold [OF this]] show ?thesis
    unfolding init_zoneTime_def .
qed

lemma total_all_empty: "\<forall>x\<in>set tbl. snd x = empty_entry \<Longrightarrow> total_duration tbl = 0"
  by (induction tbl) (auto simp: total_duration_def empty_entry_def)

lemma keys_set_entry:
  "map fst (set_entry k v tbl) = (if k \<in> fst ` set tbl then map fst tbl else map fst tbl @ [k])"
  by (induction k v tbl rule: set_entry.induct) auto

lemma distinct_set_entry:
  "distinct (map fst tbl) \<Longrightarrow> distinct (map fst (set_entry k v tbl))"
  unfolding keys_set_entry by simp

lemma distinct_zone_loop:
  "distinct (map fst tbl) \<Longrightarrow> distinct (map fst (zone_loop lz prev ps tbl))"
  by (induction ps arbitrary: lz prev tbl) (simp_all add: zone_step_def Let_def distinct_set_entry)

lemma distinct_fold:
  "distinct (map fst tbl) \<Longrightarrow>
     distinct (map fst (foldl (\<lambda>tbl z. set_entry (z_name z) empty_entry tbl) tbl zs))"
  by (induction zs arbitrary: tbl) (simp_all add: distinct_set_entry)

lemma distinct_init: "distinct (map fst (init_zoneTime zones))"
  unfolding init_zoneTime_def by (intro distinct_set_entry distinct_fold) simp

lemma nonneg_total: "nonneg_table tbl \<Longrightarrow> 0 \<le> total_duration tbl"
  by (induction tbl) (auto simp: nonneg_table_def total_duration_def)

lemma slot_le_total:
  "nonneg_table tbl \<Longrightarrow> 0 \<le> slot_duration tbl k \<and> slot_duration tbl k \<le> total_duration tbl"
proof (induction tbl)
  case Nil
  show ?case by (simp add: slot_duration_def total_duration_def)
next
  case (Cons x tbl)
  obtain k' e where x: "x = (k', e)" by (cases x)
  from Cons.prems have nn: "nonneg_table tbl" and x0: "0 \<le> zt_duration e"
    by (simp_all add: nonneg_table_def x)
  note IH = Cons.IH [OF nn]
  have t: "total_duration (x # tbl) = zt_duration e + total_duration tbl"
    by (simp add: total_duration_def x)
  show ?case
  proof (cases "k = k'")
    case True
    then have "slot_duration (x # tbl) k = zt_duration e" by (simp add: slot_duration_def x)
    with x0 nonneg_total [OF nn] show ?thesis unfolding t by simp
  next
    case False
    then have "slot_duration (x # tbl) k = slot_duration tbl k" by (simp add: slot_duration_def x)
    with IH x0 show ?thesis unfolding t by simp
  qed
qed

lemma entry_le_total:
  assumes "nonneg_table tbl"
  shows "0 \<le> slot_duration tbl k" and "slot_duration tbl k \<le> total_duration tbl"
  using slot_le_total [OF assms, of k] by simp_all

lemma nonneg_set_entry:
  assumes "nonneg_table tbl" and "0 \<le> zt_duration v"
  shows "nonneg_table (set_entry k v tbl)"
  unfolding nonneg_table_def
proof
  fix x assume "x \<in> set (set_entry k v tbl)"
  then have "x = (k, v) \<or> x \<in> set tbl" using set_set_entry [of k v tbl] by blast
  then show "0 \<le> zt_duration (snd x)" using assms by (auto simp: nonneg_table_def)
qed

lemma total_zone_step:
  "total_duration (zone_step lz prev p tbl)
     = total_duration tbl - slot_duration tbl (zone_name p)
       + fl (slot_duration tbl (zone_name p) + seconds (timestamp p - timestamp prev))"
  by (simp add: zone_step_def Let_def total_set_entry slot_duration_def empty_entry_def
        split: option.splits)

lemma nonneg_zone_step:
  assumes "nonneg_table tbl" and "timestamp prev \<le> timestamp p"
  shows "nonneg_table (zone_step lz prev p tbl)"
proof -
  let ?e = "case map_of tbl (zone_name p) of None \<Rightarrow> empty_entry | Some e \<Rightarrow> e"
  have e0: "0 \<le> zt_duration ?e"
    using entry_le_total(1) [OF assms(1), of "zone_name p"]
    by (simp add: slot_duration_def empty_entry_def split: option.splits)
  have "0 \<le> seconds (timestamp p - timestamp prev)"
    using assms(2) by (intro seconds_rel(1)) simp
  with e0 have "0 \<le> fl (zt_duration ?e + seconds (timestamp p - timestamp prev))"
    by (intro fl_nonneg) simp
  then show ?thesis
    unfolding zone_step_def Let_def by (intro nonneg_set_entry [OF assms(1)]) simp
qed

lemma zone_loop_inv:
  assumes "sorted (map timestamp (prev # ps))" and "nonneg_table tbl"
    and "(1 - eps) ^ j * T \<le> total_duration tbl" "total_duration tbl \<le> (1 + eps) ^ j * T"
    and "0 \<le> T" "2 \<le> j"
  shows "(1 - eps) ^ (j + length ps)
            * (T + real_of_int (timestamp (last (prev # ps)) - timestamp prev) / 1000)
           \<le> total_duration (zone_loop lz prev ps tbl) \<and>
         total_duration (zone_loop lz prev ps tbl)
           \<le> (1 + eps) ^ (j + length ps)
               * (T + real_of_int (timestamp (last (prev # ps)) - timestamp prev) / 1000)"
  using assms
proof (induction ps arbitrary: prev tbl lz j T)
  case Nil
  then show ?case by simp
next
  case (Cons p ps)
  let ?ms = "timestamp p - timestamp prev"
  let ?d = "real_of_int ?ms / 1000"
  from Cons.prems(1) have le: "timestamp prev \<le> timestamp p"
    and srt: "sorted (map timestamp (p # ps))"
    by simp_all
  then have ms: "0 \<le> ?ms" by simp
  note sr = seconds_rel [OF ms]
  have d0: "0 \<le> ?d" using ms by simp
  have T': "0 \<le> T + ?d" using Cons.prems(5) d0 by simp
  have j': "2 \<le> Suc j" using Cons.prems(6) by simp
  note c = entry_le_total [OF Cons.prems(2), of "zone_name p"]
  note b = acc_step [OF c Cons.prems(3,4,5) d0 sr(2,3) Cons.prems(6)]
  have b1: "(1 - eps) ^ Suc j * (T + ?d) \<le> total_duration (zone_step lz prev p tbl)"
    unfolding total_zone_step using b(1) .
  have b2: "total_duration (zone_step lz prev p tbl) \<le> (1 + eps) ^ Suc j * (T + ?d)"
    unfolding total_zone_step using b(2) .
  have nn: "nonneg_table (zone_step lz prev p tbl)"
    using Cons.prems(2) le by (rule nonneg_zone_step)
  have tel: "T + ?d + real_of_int (timestamp (last (p # ps)) - timestamp p) / 1000
               = T + real_of_int (timestamp (last (prev # p # ps)) - timestamp prev) / 1000"
    using ms_split [of "timestamp p" "timestamp prev" "timestamp (last (p # ps))"] by simp
  have len: "Suc j + length ps = j + length (p # ps)" by simp
  from Cons.IH [OF srt nn b1 b2 T' j', of "Some (zone_name p)"]
  show ?case unfolding tel len by simp
qed

lemma own_total: "proto_idle tbl \<Longrightarrow> total_duration (own_entries tbl) = total_duration tbl"
  by (induction tbl) (auto simp: proto_idle_def own_entries_def total_duration_def)

lemma proto_idle_set_entry:
  assumes "proto_idle tbl" and "k \<noteq> ''__proto__''"
  shows "proto_idle (set_entry k v tbl)"
  unfolding proto_idle_def
proof (intro ballI impI)
  fix x assume "x \<in> set (set_entry k v tbl)" and "fst x = ''__proto__''"
  then have "x \<in> set tbl" using set_set_entry [of k v tbl] assms(2) by auto
  then show "zt_duration (snd x) = 0" using assms(1) \<open>fst x = ''__proto__''\<close>
    by (simp add: proto_idle_def)
qed

lemma proto_idle_zone_loop:
  assumes "proto_idle tbl" and "\<forall>p\<in>set ps. zone_name p \<noteq> ''__proto__''"
  shows "proto_idle (zone_loop lz prev ps tbl)"
  using assms
proof (induction ps arbitrary: lz prev tbl)
  case Nil
  then show ?case by simp
next
  case (Cons p ps)
  have "proto_idle (zone_step lz prev p tbl)"
    unfolding zone_step_def Let_def using Cons.prems by (intro proto_idle_set_entry) simp_all
  with Cons show ?case by simp
qed

lemma proto_idle_init: "proto_idle (init_zoneTime zones)"
  using init_entries [of zones] by (auto simp: proto_idle_def empty_entry_def)

lemma distinct_own: "distinct (map fst tbl) \<Longrightarrow> distinct (map fst (own_entries tbl))"
  by (simp add: own_entries_def distinct_map_filter)

text \<open>
  C7 (as amended). For points in time order, none of them in a zone named like a member of
  \<^verbatim>\<open>Object.prototype\<close>, the entries of the returned table (as \<^verbatim>\<open>Object.entries\<close> lists them:
  the known zones, \<^verbatim>\<open>'Away'\<close> and the entries added by the loop) have distinct names; the sum
  of their durations is 0 for an empty or single-point sequence; and for \<open>n \<ge> 1\<close> points it
  agrees with the elapsed time \<open>D\<close> from the first to the last point, in seconds, up to the
  rounding of the additions: it lies between \<open>(1 - eps) ^ (n + 1) * D\<close> and
  \<open>(1 + eps) ^ (n + 1) * D\<close>, where \<open>eps\<close> is \<open>2\<close> to the power \<open>-53\<close>.
\<close>

theorem zone_time_total:
  assumes "sorted (map timestamp pts)" and "\<forall>p\<in>set pts. zone_name p \<notin> set proto_names"
  shows "distinct (map fst (own_entries (calculateZoneTime pts zones))) \<and>
         (length pts \<le> 1 \<longrightarrow> total_duration (own_entries (calculateZoneTime pts zones)) = 0) \<and>
         (pts \<noteq> [] \<longrightarrow>
            (1 - eps) ^ (length pts + 1)
               * (real_of_int (timestamp (last pts) - timestamp (hd pts)) / 1000)
              \<le> total_duration (own_entries (calculateZoneTime pts zones)) \<and>
            total_duration (own_entries (calculateZoneTime pts zones))
              \<le> (1 + eps) ^ (length pts + 1)
                  * (real_of_int (timestamp (last pts) - timestamp (hd pts)) / 1000))"
proof -
  have np: "\<forall>p\<in>set pts. zone_name p \<noteq> ''__proto__''"
    using assms(2) by (auto simp: proto_names_def)
  have dist: "distinct (map fst (own_entries (calculateZoneTime pts zones)))"
    by (cases pts) (simp_all add: calculateZoneTime_def distinct_own distinct_zone_loop distinct_init)
  have t0: "total_duration (init_zoneTime zones) = 0"
    by (rule total_all_empty [OF init_entries])
  have nn0: "nonneg_table (init_zoneTime zones)"
    using init_entries [of zones] by (auto simp: nonneg_table_def empty_entry_def)
  show ?thesis
  proof (cases pts)
    case Nil
    with dist show ?thesis
      by (simp add: calculateZoneTime_def own_total [OF proto_idle_init] t0)
  next
    case (Cons p0 rest)
    have idle: "proto_idle (zone_loop None p0 rest (init_zoneTime zones))"
      using np by (intro proto_idle_zone_loop proto_idle_init) (simp add: Cons)
    have own: "total_duration (own_entries (calculateZoneTime pts zones))
                 = total_duration (zone_loop None p0 rest (init_zoneTime zones))"
      by (simp add: Cons calculateZoneTime_def own_total [OF idle])
    have srt: "sorted (map timestamp (p0 # rest))" using assms(1) by (simp only: Cons)
    have z: "(1 - eps) ^ 2 * 0 \<le> total_duration (init_zoneTime zones)"
      "total_duration (init_zoneTime zones) \<le> (1 + eps) ^ 2 * 0" "(0 :: real) \<le> 0" "(2 :: nat) \<le> 2"
      by (simp_all add: t0)
    from zone_loop_inv [OF srt nn0 z, of None]
    have b: "(1 - eps) ^ (length pts + 1)
               * (real_of_int (timestamp (last pts) - timestamp (hd pts)) / 1000)
              \<le> total_duration (own_entries (calculateZoneTime pts zones))"
      "total_duration (own_entries (calculateZoneTime pts zones))
              \<le> (1 + eps) ^ (length pts + 1)
                  * (real_of_int (timestamp (last pts) - timestamp (hd pts)) / 1000)"
      unfolding own by (simp_all add: Cons)
    have "total_duration (own_entries (calculateZoneTime pts zones)) = 0" if "length pts \<le> 1"
    proof -
      from that have "rest = []" by (simp add: Cons)
      then show ?thesis unfolding own by (simp add: t0)
    qed
    with dist b show ?thesis by (simp add: Cons)
  qed
qed

theorem zone_time_total_witness:
  "distinct (map fst (own_entries (calculateZoneTime
      [track_point 1 1 0 (Some ''Home'') 0, track_point 2 2 60000 None 0,
       track_point 3 3 90000 (Some ''Home'') 0] []))) \<and>
   total_duration (own_entries (calculateZoneTime
      [track_point 1 1 0 (Some ''Home'') 0, track_point 2 2 60000 None 0,
       track_point 3 3 90000 (Some ''Home'') 0] []))
     \<le> (1 + eps) ^ 4 * (real_of_int (90000 - 0) / 1000)"
proof -
  let ?ex = "[track_point 1 1 0 (Some ''Home'') 0, track_point 2 2 60000 None 0,
              track_point 3 3 90000 (Some ''Home'') 0]"
  have a: "sorted (map timestamp ?ex)" by (simp add: track_point_def)
  have b: "\<forall>p\<in>set ?ex. zone_name p \<notin> set proto_names"
    by (simp add: track_point_def zone_name_def or_null_def proto_names_def)
  have c: "length ?ex + 1 = 4" "timestamp (last ?ex) = 90000" "timestamp (hd ?ex) = 0" "?ex \<noteq> []"
    by (simp_all add: track_point_def)
  from zone_time_total [OF a b, of "[]"] show ?thesis
    unfolding c by blast
qed

text \<open>
  C7 as stated fails: for three points outside every zone at 0 ms, 100 ms and 300 ms, the
  only entry is \<^verbatim>\<open>'Away'\<close>, with the duration \<^verbatim>\<open>0.1 + 0.2 = 0.30000000000000004\<close>, which is
  neither the elapsed time of 0.3 s nor the double \<^verbatim>\<open>0.3\<close>.
\<close>

theorem zone_sum_rounds:
  "total_duration (own_entries (calculateZoneTime
      [track_point 1 1 0 None 0, track_point 1 1 100 None 0, track_point 1 1 300 None 0] []))
     \<noteq> real_of_int (300 - 0) / 1000 \<and>
   total_duration (own_entries (calculateZoneTime
      [track_point 1 1 0 None 0, track_point 1 1 100 None 0, track_point 1 1 300 None 0] []))
     \<noteq> seconds (300 - 0)"
proof -
  let ?ex = "[track_point 1 1 0 None 0, track_point 1 1 100 None 0, track_point 1 1 300 None 0]"
  have f: "fl (seconds 100) = seconds 100" by (rule fl_seconds) simp
  have "total_duration (own_entries (calculateZoneTime ?ex [])) = fl (seconds 100 + seconds 200)"
    by (simp add: calculateZoneTime_def init_zoneTime_def zone_step_def zone_name_def or_null_def
          track_point_def empty_entry_def own_entries_def total_duration_def Let_def f)
  then show ?thesis
    by (simp add: sum_100_200 seconds_300)
qed

text \<open>
  A zone named \<^verbatim>\<open>__proto__\<close> has no entry in the returned table: the time spent there is
  in none of the listed durations.
\<close>

lemma proto_zone_not_listed:
  "total_duration (own_entries (calculateZoneTime
      [track_point 1 1 0 (Some ''__proto__'') 0, track_point 1 1 60000 (Some ''__proto__'') 0]
      [(''zone.odd'', \<lparr> z_name = ''__proto__'', z_lat = 1, z_lng = 1, z_radius = 100 \<rparr>)])) = 0"
  by (simp add: calculateZoneTime_def init_zoneTime_def zone_step_def zone_name_def or_null_def
        track_point_def empty_entry_def own_entries_def total_duration_def Let_def)









section \<open>Crash detector\<close>




lemma js_get_Undefined: "js_get m k = Undefined \<longleftrightarrow> m k = None \<and> k \<notin> set proto_names"
  by (simp add: js_get_def split: option.splits)

lemma js_get_Own: "js_get m k = Own v \<longleftrightarrow> m k = Some v"
  by (simp add: js_get_def split: option.splits)































end
